theory Spec2Isabelle
  imports Main
begin

section \<open>Token budget tracker\<close>

text \<open>
  The class \<open>TokenBudgetTracker\<close> of \<open>utils/helper-functions.ts\<close>. Its four fields form
  a record; the two \<open>readonly\<close> ones are set once by the constructor. Every method reads
  the clock through \<open>Date.now()\<close>: the model passes that reading in as \<open>now\<close> (milliseconds)
  and returns the tracker as the method leaves it. Token counts and times are integers.
\<close>

record tracker =
  usedTokens :: int
  windowStart :: int
  windowMs :: int
  tokensPerMinute :: int

definition resetIfNeeded :: "int \<Rightarrow> tracker \<Rightarrow> tracker" where
  "resetIfNeeded now t =
     (if now - windowStart t \<ge> windowMs t
      then t\<lparr>usedTokens := 0, windowStart := now\<rparr>
      else t)"

definition canUseTokens :: "int \<Rightarrow> int \<Rightarrow> tracker \<Rightarrow> bool \<times> tracker" where
  "canUseTokens now estimatedTokens t =
     (let t' = resetIfNeeded now t
      in (usedTokens t' + estimatedTokens \<le> tokensPerMinute t', t'))"

definition useTokens :: "int \<Rightarrow> int \<Rightarrow> tracker \<Rightarrow> tracker" where
  "useTokens now actualTokens t =
     (let t' = resetIfNeeded now t
      in t'\<lparr>usedTokens := usedTokens t' + actualTokens\<rparr>)"

definition getRemainingTokens :: "int \<Rightarrow> tracker \<Rightarrow> int \<times> tracker" where
  "getRemainingTokens now t =
     (let t' = resetIfNeeded now t
      in (max 0 (tokensPerMinute t' - usedTokens t'), t'))"

text \<open>
  A run of \<open>useTokens\<close> calls, each with the clock reading at which it happens.
\<close>

fun useTokens_seq :: "(int \<times> int) list \<Rightarrow> tracker \<Rightarrow> tracker" where
  "useTokens_seq [] t = t"
| "useTokens_seq ((now, a) # calls) t = useTokens_seq calls (useTokens now a t)"

text \<open>
  All calls of a run fall into the window that is open at its start: no reading reaches
  the end of the window.
\<close>

definition within_window :: "tracker \<Rightarrow> int list \<Rightarrow> bool" where
  "within_window t nows = list_all (\<lambda>now. now - windowStart t < windowMs t) nows"


section \<open>Errors, numbers in messages, string helpers\<close>

text \<open>
  A JavaScript \<open>Error\<close> as the code reads it: its \<open>message\<close>; its HTTP-like \<open>status\<close>, which
  the retry handler takes from \<open>error.status ?? error.response?.status\<close> (\<open>None\<close> when
  neither is there); and \<open>Number(error.response?.headers?.['retry-after'])\<close>, with \<open>None\<close>
  for \<open>NaN\<close>, the value of a missing or unparsable header. \<open>new Error(msg)\<close> has the
  message alone. Strings are lists of 8-bit code units.
\<close>

record jserror =
  message :: string
  status :: "int option"
  retryAfter :: "int option"

definition new_Error :: "string \<Rightarrow> jserror" where
  "new_Error msg = \<lparr>message = msg, status = None, retryAfter = None\<rparr>"

text \<open>
  Template literals print numbers in decimal: \<open>show_int\<close> for a whole number (below
  \<open>10^21\<close> in size, where JavaScript keeps the plain notation), \<open>show_thousandths\<close> for the
  quotient \<open>n / 1000\<close> of a whole number of milliseconds, whose fraction has at most three
  digits and is printed without trailing zeros. \<open>digit_char\<close> is only applied to a number
  below ten.
\<close>

definition digit_char :: "nat \<Rightarrow> char" where
  "digit_char d = ''0123456789'' ! d"

fun show_nat :: "nat \<Rightarrow> string" where
  "show_nat n = (if n < 10 then [digit_char n] else show_nat (n div 10) @ [digit_char (n mod 10)])"

declare show_nat.simps [simp del]

definition show_int :: "int \<Rightarrow> string" where
  "show_int i = (if i < 0 then CHR ''-'' # show_nat (nat (- i)) else show_nat (nat i))"

definition show_fraction :: "nat \<Rightarrow> string" where
  "show_fraction r =
     (if r mod 100 = 0 then [digit_char (r div 100)]
      else if r mod 10 = 0 then [digit_char (r div 100), digit_char (r div 10 mod 10)]
      else [digit_char (r div 100), digit_char (r div 10 mod 10), digit_char (r mod 10)])"

definition show_thousandths :: "int \<Rightarrow> string" where
  "show_thousandths n =
     (let a = nat \<bar>n\<bar>;
          body = (if a mod 1000 = 0 then show_nat (a div 1000)
                  else show_nat (a div 1000) @ CHR ''.'' # show_fraction (a mod 1000))
      in if n < 0 then CHR ''-'' # body else body)"

text \<open>\<open>s.includes(pat)\<close>: the pattern occurs in \<open>s\<close> as a contiguous run.\<close>

fun str_includes :: "string \<Rightarrow> string \<Rightarrow> bool" where
  "str_includes [] pat = (pat = [])"
| "str_includes (c # cs) pat = (take (length pat) (c # cs) = pat \<or> str_includes cs pat)"

text \<open>
  \<open>s.trim()\<close> removes white space and line terminators at both ends; among the 8-bit code
  units these are tab, line feed, vertical tab, form feed, carriage return, space and the
  no-break space.
\<close>

definition is_space :: "char \<Rightarrow> bool" where
  "is_space c = (c \<in> set [CHR 0x09, CHR 0x0A, CHR 0x0B, CHR 0x0C, CHR 0x0D, CHR 0x20, CHR 0xA0])"

definition trim :: "string \<Rightarrow> string" where
  "trim s = rev (dropWhile is_space (rev (dropWhile is_space s)))"

text \<open>\<open>texts.join('\n\n---\n\n')\<close> and \<open>texts.slice(i, j)\<close> for \<open>0 \<le> i \<le> j\<close>.\<close>

definition separator :: string where
  "separator = [CHR 0x0A, CHR 0x0A, CHR ''-'', CHR ''-'', CHR ''-'', CHR 0x0A, CHR 0x0A]"

fun join_texts :: "string list \<Rightarrow> string" where
  "join_texts [] = []"
| "join_texts [t] = t"
| "join_texts (t # ts) = t @ separator @ join_texts ts"

definition slice :: "'a list \<Rightarrow> nat \<Rightarrow> nat \<Rightarrow> 'a list" where
  "slice xs i j = drop i (take j xs)"

section \<open>Retry policy\<close>

text \<open>
  \<open>withRetry\<close> hands \<open>fn\<close> to \<open>pRetry\<close> with \<open>retries: maxRetries\<close> and an \<open>onFailedAttempt\<close>
  handler. An asynchronous function that acts on the world is a function from the state
  to its outcome and the state it leaves: \<open>Inl\<close> a rejection, \<open>Inr\<close> the value. The handler's
  \<open>await new Promise((resolve) => setTimeout(resolve, delay))\<close> is \<open>sleep delay\<close>, a
  parameter, since what a delay does depends on the state at hand. \<open>attemptNumber\<close> counts
  from 1.
\<close>

definition backoff :: "nat \<Rightarrow> int" where
  "backoff attemptNumber = min (2 ^ attemptNumber * 1000) 8000"

definition onFailedAttempt ::
  "(int \<Rightarrow> 's \<Rightarrow> 's) \<Rightarrow> jserror \<Rightarrow> nat \<Rightarrow> 's \<Rightarrow> (jserror + unit) \<times> 's" where
  "onFailedAttempt sleep error attemptNumber s =
     (if status error = Some 429
      then (let delay = (case retryAfter error of
                           Some r \<Rightarrow> r * 1000
                         | None \<Rightarrow> backoff attemptNumber)
            in (Inr (), sleep delay s))
      else if (case status error of Some st \<Rightarrow> st \<ge> 500 | None \<Rightarrow> False)
      then (let delay = backoff attemptNumber in (Inr (), sleep delay s))
      else (Inl error, s))"

text \<open>
  \<open>pRetry\<close> is the npm package p-retry, a dependency whose code is not in the repository.
  The model is its documented contract, which section 4.2 of the specification restates:
  \<open>fn\<close> runs; when it fails, the handler runs with the error and the number of the
  attempt; an error thrown by the handler ends the retrying and is the result; otherwise
  \<open>fn\<close> runs again, unless \<open>retries\<close> re-runs have been made, in which case the last error
  is the result. So \<open>fn\<close> runs at most \<open>retries + 1\<close> times. The package's own timer
  between attempts only lets time pass.
\<close>

fun pRetry ::
  "('s \<Rightarrow> (jserror + 'a) \<times> 's) \<Rightarrow> (jserror \<Rightarrow> nat \<Rightarrow> 's \<Rightarrow> (jserror + unit) \<times> 's)
     \<Rightarrow> nat \<Rightarrow> nat \<Rightarrow> 's \<Rightarrow> (jserror + 'a) \<times> 's" where
  "pRetry fn handler retriesLeft attemptNumber s =
     (case fn s of
        (Inr v, s1) \<Rightarrow> (Inr v, s1)
      | (Inl error, s1) \<Rightarrow>
          (case handler error attemptNumber s1 of
             (Inl thrown, s2) \<Rightarrow> (Inl thrown, s2)
           | (Inr _, s2) \<Rightarrow>
               (case retriesLeft of
                  0 \<Rightarrow> (Inl error, s2)
                | Suc r \<Rightarrow> pRetry fn handler r (Suc attemptNumber) s2)))"

declare pRetry.simps [simp del]

definition withRetry ::
  "('s \<Rightarrow> (jserror + 'a) \<times> 's) \<Rightarrow> (int \<Rightarrow> 's \<Rightarrow> 's) \<Rightarrow> nat \<Rightarrow> 's \<Rightarrow> (jserror + 'a) \<times> 's" where
  "withRetry fn sleep maxRetries s = pRetry fn (onFailedAttempt sleep) maxRetries 1 s"

text \<open>The default of the parameter: \<open>maxRetries = 6\<close>.\<close>

definition maxRetries_default :: nat where
  "maxRetries_default = 6"

text \<open>
  To count what \<open>withRetry\<close> does, it is run on a state that records the invocations of
  \<open>fn\<close> and the delays slept. \<open>scripted outcome\<close> is the function whose invocation number
  \<open>k\<close> (from 0) ends as \<open>outcome k\<close> says.
\<close>

record probe =
  invoked :: nat
  slept :: "int list"

definition probe0 :: probe where
  "probe0 = \<lparr>invoked = 0, slept = []\<rparr>"

definition scripted :: "(nat \<Rightarrow> jserror + 'a) \<Rightarrow> probe \<Rightarrow> (jserror + 'a) \<times> probe" where
  "scripted outcome p = (outcome (invoked p), p\<lparr>invoked := Suc (invoked p)\<rparr>)"

definition probe_sleep :: "int \<Rightarrow> probe \<Rightarrow> probe" where
  "probe_sleep delay p = p\<lparr>slept := slept p @ [delay]\<rparr>"

section \<open>Hierarchical reduce\<close>

text \<open>
  The \<open>for\<close> loop that fills \<open>groups\<close>. It steps \<open>i\<close> by \<open>groupSize\<close> and so need not end;
  \<open>None\<close> is the loop that never ends.
\<close>

partial_function (option) group_loop ::
  "'a list \<Rightarrow> nat \<Rightarrow> nat \<Rightarrow> 'a list list \<Rightarrow> 'a list list option" where
  "group_loop texts groupSize i groups =
     (if i < length texts
      then group_loop texts groupSize (i + groupSize) (groups @ [slice texts i (i + groupSize)])
      else Some groups)"

declare group_loop.simps [code]

text \<open>
  \<open>Promise.all(groups.map((g) => reduceJob(...)))\<close>: \<open>map\<close> calls \<open>reduceJob\<close> on every group,
  from left to right, whatever becomes of the earlier calls; the jobs act on the state in
  that order. The result is the list of the values, in the order of the groups, or the
  rejection of the leftmost job that fails.
\<close>

fun promise_all ::
  "('s \<Rightarrow> (jserror + 'a) \<times> 's) list \<Rightarrow> 's \<Rightarrow> (jserror + 'a list) \<times> 's" where
  "promise_all [] s = (Inr [], s)"
| "promise_all (p # ps) s =
     (case p s of (r, s1) \<Rightarrow>
        (case promise_all ps s1 of (rs, s2) \<Rightarrow>
           ((case r of
               Inl e \<Rightarrow> Inl e
             | Inr v \<Rightarrow> (case rs of Inl e \<Rightarrow> Inl e | Inr vs \<Rightarrow> Inr (v # vs))), s2)))"

text \<open>
  \<open>hierarchicalReduce\<close> recurses on the level it has built and need not return either:
  \<open>None\<close> is the call that never returns.
\<close>

partial_function (option) hierarchicalReduce ::
  "string list \<Rightarrow> (string \<Rightarrow> 's \<Rightarrow> (jserror + string) \<times> 's) \<Rightarrow> nat \<Rightarrow> 's
     \<Rightarrow> ((jserror + string) \<times> 's) option" where
  "hierarchicalReduce texts reduceJob groupSize s =
     (if length texts \<le> groupSize
      then Some (reduceJob (join_texts texts) s)
      else (case group_loop texts groupSize 0 [] of
              None \<Rightarrow> None
            | Some groups \<Rightarrow>
                (case promise_all (map (\<lambda>g. reduceJob (join_texts g)) groups) s of
                   (Inl e, s') \<Rightarrow> Some (Inl e, s')
                 | (Inr level, s') \<Rightarrow> hierarchicalReduce level reduceJob groupSize s')))"

declare hierarchicalReduce.simps [code]

text \<open>
  To see the calls of \<open>reduceJob\<close>, the job is run on a state that carries a log:
  \<open>logged job\<close> does what \<open>job\<close> does and appends the text it was called with and how the
  call ended. \<open>combine_calls\<close> counts the calls of a run that has returned.
\<close>

type_synonym call_log = "(string \<times> (jserror + string)) list"

definition logged ::
  "(string \<Rightarrow> 's \<Rightarrow> (jserror + string) \<times> 's) \<Rightarrow> string \<Rightarrow> call_log \<times> 's
     \<Rightarrow> (jserror + string) \<times> (call_log \<times> 's)" where
  "logged job t = (\<lambda>(log, s). case job t s of (r, s') \<Rightarrow> (r, (log @ [(t, r)], s')))"

definition combine_calls :: "((jserror + string) \<times> (call_log \<times> 's)) option \<Rightarrow> nat" where
  "combine_calls run = (case run of None \<Rightarrow> 0 | Some (r, (log, s)) \<Rightarrow> length log)"

text \<open>A job that never fails, for every text and in every state.\<close>

definition always_succeeds :: "(string \<Rightarrow> 's \<Rightarrow> (jserror + string) \<times> 's) \<Rightarrow> bool" where
  "always_succeeds job = (\<forall>t s. \<exists>v s'. job t s = (Inr v, s'))"

section \<open>Map phase of the orchestrator\<close>

text \<open>
  \<open>summarizeWithQueue\<close> of \<open>MapReducer.node.summarize.ts\<close>. A document has its text and the
  two numbers of its \<open>metadata\<close>. The configuration is \<open>SummarizeCfg\<close> without the chunking
  numbers and the temperature, which the function passes on or never reads.
\<close>

record doc =
  pageContent :: string
  chunk :: int
  tokenCount :: int

record summarize_cfg =
  TOKENS_PER_MINUTE :: int
  TOKEN_BUDGET_TIMEOUT :: int
  REQUESTS_PER_MINUTE :: int
  QUEUE_INTERVAL :: int
  QUEUE_CONCURRENCY :: int
  TOKEN_BUDGET_WINDOWS :: int
  MAP_OUT_MAX :: int
  REDUCE_OUT_MAX :: int
  HIERARCHY_GROUP_SIZE :: nat

text \<open>
  What the model answers: \<open>content\<close> (empty when there is none) and, when present,
  \<open>usage_metadata\<close> with the three counts that may each be missing.
\<close>

record usage =
  input_tokens :: "int option"
  output_tokens :: "int option"
  total_tokens :: "int option"

record response =
  content :: string
  usage_metadata :: "usage option"

definition usedTokensFromMessage :: "response \<Rightarrow> int option" where
  "usedTokensFromMessage msg =
     (case usage_metadata msg of
        None \<Rightarrow> None
      | Some usageMetadata \<Rightarrow>
          (case (input_tokens usageMetadata, output_tokens usageMetadata) of
             (Some inputTokens, Some outputTokens) \<Rightarrow> Some (inputTokens + outputTokens)
           | _ \<Rightarrow> total_tokens usageMetadata))"

text \<open>
  The world a run acts on: the \<open>clock\<close> that \<open>Date.now()\<close> reads, the tracker that \<open>makeQueue\<close>
  creates, and the state of the language model, of any type. The collaborators of a run
  are parameters: \<open>mapPrompt.format\<close>, which may throw; \<open>countTokens\<close> with the encoding of
  the run; and \<open>model.invoke\<close>, which from the prompt, \<open>maxTokens\<close> and the model's state
  gives the answer or the error thrown, the time that passed until then, and the model's
  new state. The clock moves when the code awaits: by the delay of a \<open>setTimeout\<close>, and by
  what a call of the model takes. \<open>queue.add(job)\<close> runs the job and gives its result; the
  time a job waits in the queue, or in the timer p-retry runs between attempts, counts as
  time the call takes.
\<close>

record 'm world =
  clock :: int
  tokenTracker :: tracker
  modelState :: 'm

record 'm collaborators =
  mapPrompt_format :: "string \<Rightarrow> jserror + string"
  countTokens :: "string \<Rightarrow> int"
  model_invoke :: "string \<Rightarrow> int \<Rightarrow> 'm \<Rightarrow> (jserror + response) \<times> int \<times> 'm"

definition new_TokenBudgetTracker :: "summarize_cfg \<Rightarrow> int \<Rightarrow> tracker" where
  "new_TokenBudgetTracker config now0 =
     \<lparr>usedTokens = 0, windowStart = now0,
      windowMs = TOKEN_BUDGET_WINDOWS config, tokensPerMinute = TOKENS_PER_MINUTE config\<rparr>"

definition sleep_ms :: "int \<Rightarrow> 'm world \<Rightarrow> 'm world" where
  "sleep_ms delay w = w\<lparr>clock := clock w + delay\<rparr>"

definition estimate_message :: "int \<Rightarrow> int \<Rightarrow> string" where
  "estimate_message estWeight tpm =
     ''MAP operation token estimate ('' @ show_int estWeight
       @ '') exceeds TPM limit ('' @ show_int tpm @ '')''"

definition timeout_message :: "summarize_cfg \<Rightarrow> int \<Rightarrow> int \<Rightarrow> string" where
  "timeout_message config estWeight remaining =
     ''Token budget timeout after '' @ show_thousandths (TOKEN_BUDGET_TIMEOUT config)
       @ '' seconds: need '' @ show_int estWeight @ '', have '' @ show_int remaining"

definition empty_response_message :: "doc \<Rightarrow> string" where
  "empty_response_message d =
     ''Empty response from model for document '' @ show_int (chunk d + 1)"

text \<open>
  The loop that waits for the token budget. \<open>getRemainingTokens\<close> is called for the
  message of either branch.
\<close>

function wait_for_budget ::
  "summarize_cfg \<Rightarrow> int \<Rightarrow> int \<Rightarrow> 'm world \<Rightarrow> (jserror + unit) \<times> 'm world" where
  "wait_for_budget config estWeight startTime w =
     (case canUseTokens (clock w) estWeight (tokenTracker w) of
        (ok, t1) \<Rightarrow>
          if ok then (Inr (), w\<lparr>tokenTracker := t1\<rparr>)
          else (case getRemainingTokens (clock w) t1 of
                  (remaining, t2) \<Rightarrow>
                    if clock w - startTime > TOKEN_BUDGET_TIMEOUT config
                    then (Inl (new_Error (timeout_message config estWeight remaining)),
                          w\<lparr>tokenTracker := t2\<rparr>)
                    else wait_for_budget config estWeight startTime
                           (sleep_ms 3000 (w\<lparr>tokenTracker := t2\<rparr>))))"
  by pat_completeness auto
termination
  by (relation "measure (\<lambda>(config, estWeight, startTime, w).
        nat (TOKEN_BUDGET_TIMEOUT config - (clock w - startTime) + 1))")
     (auto simp: sleep_ms_def)

declare wait_for_budget.simps [simp del]

text \<open>The function that \<open>withRetry\<close> runs for a document: one call of the model.\<close>

definition map_call ::
  "'m collaborators \<Rightarrow> summarize_cfg \<Rightarrow> doc \<Rightarrow> string \<Rightarrow> int \<Rightarrow> 'm world
     \<Rightarrow> (jserror + string) \<times> 'm world" where
  "map_call env config d prompt estWeight w =
     (case model_invoke env prompt (MAP_OUT_MAX config) (modelState w) of
        (res, elapsed, m') \<Rightarrow>
          (let w1 = w\<lparr>clock := clock w + elapsed, modelState := m'\<rparr>
           in case res of
                Inl error \<Rightarrow> (Inl error, w1)
              | Inr res \<Rightarrow>
                  if content res = []
                  then (Inl (new_Error (empty_response_message d)), w1)
                  else (let actualTokens =
                              (case usedTokensFromMessage res of
                                 None \<Rightarrow> estWeight
                               | Some n \<Rightarrow> if n = 0 then estWeight else n)
                        in (Inr (trim (content res)),
                            w1\<lparr>tokenTracker :=
                                 useTokens (clock w1) actualTokens (tokenTracker w1)\<rparr>))))"

text \<open>
  The body of the inner \<open>try\<close> for a document that has text, up to the value of \<open>partial\<close>:
  the prompt, the estimate and its check against the limit, the wait, the call.
\<close>

definition map_attempt ::
  "'m collaborators \<Rightarrow> summarize_cfg \<Rightarrow> doc \<Rightarrow> 'm world \<Rightarrow> (jserror + string) \<times> 'm world" where
  "map_attempt env config d w =
     (case mapPrompt_format env (pageContent d) of
        Inl error \<Rightarrow> (Inl error, w)
      | Inr prompt \<Rightarrow>
          (let promptTokens = countTokens env prompt;
               estWeight = promptTokens + MAP_OUT_MAX config
           in if estWeight > TOKENS_PER_MINUTE config
              then (Inl (new_Error (estimate_message estWeight (TOKENS_PER_MINUTE config))), w)
              else (case wait_for_budget config estWeight (clock w) w of
                      (Inl error, w1) \<Rightarrow> (Inl error, w1)
                    | (Inr _, w1) \<Rightarrow>
                        withRetry (map_call env config d prompt estWeight) sleep_ms
                          maxRetries_default w1)))"

text \<open>
  One round of the \<open>for\<close> loop over the documents, on the list \<open>partials\<close> and the world.
  The first component is the error that the \<open>catch\<close> throws again, which ends the loop.
\<close>

definition map_iteration ::
  "'m collaborators \<Rightarrow> summarize_cfg \<Rightarrow> doc \<Rightarrow> string list \<times> 'm world
     \<Rightarrow> jserror option \<times> string list \<times> 'm world" where
  "map_iteration env config d = (\<lambda>(partials, w).
     if pageContent d = [] then (None, partials, w)
     else (case map_attempt env config d w of
             (Inr partial, w1) \<Rightarrow>
               if partial \<noteq> [] then (None, partials @ [partial], w1) else (None, partials, w1)
           | (Inl error, w1) \<Rightarrow>
               if str_includes (message error) ''Token budget timeout''
               then (Some error, partials, w1)
               else (None, partials, w1)))"

fun map_loop ::
  "'m collaborators \<Rightarrow> summarize_cfg \<Rightarrow> doc list \<Rightarrow> string list \<times> 'm world
     \<Rightarrow> jserror option \<times> string list \<times> 'm world" where
  "map_loop env config [] st = (None, st)"
| "map_loop env config (d # ds) st =
     (case map_iteration env config d st of
        (Some error, st1) \<Rightarrow> (Some error, st1)
      | (None, st1) \<Rightarrow> map_loop env config ds st1)"

text \<open>The outer \<open>try\<close> of the map phase, which wraps whatever is thrown in it.\<close>

definition map_phase ::
  "'m collaborators \<Rightarrow> summarize_cfg \<Rightarrow> doc list \<Rightarrow> 'm world
     \<Rightarrow> (jserror + string list) \<times> 'm world" where
  "map_phase env config docs w =
     (case map_loop env config docs ([], w) of
        (Some error, partials, w1) \<Rightarrow>
          (Inl (new_Error (''MAP phase failed: '' @ message error)), w1)
      | (None, partials, w1) \<Rightarrow>
          if partials = []
          then (Inl (new_Error (''MAP phase failed: ''
                  @ ''No documents were successfully processed in MAP phase'')), w1)
          else (Inr partials, w1))"

text \<open>
  \<open>makeQueue(config)\<close> creates the tracker of the run, whose first window opens at the
  time of the call, and the queue, which is empty. Here \<open>queue.add(job)\<close> runs the job and
  gives its result; the queue with its states comes further down, with the proof that
  this is what it does for the loop.
\<close>

definition makeQueue :: "summarize_cfg \<Rightarrow> 'm world \<Rightarrow> 'm world" where
  "makeQueue config w = w\<lparr>tokenTracker := new_TokenBudgetTracker config (clock w)\<rparr>"

text \<open>
  The second \<open>try\<close>: the reduce phase. Its jobs run side by side under \<open>Promise.all\<close>; what
  one job does to the world is the parameter \<open>reduceJob\<close>.
\<close>

definition reduce_phase ::
  "summarize_cfg \<Rightarrow> (string \<Rightarrow> 'm world \<Rightarrow> (jserror + string) \<times> 'm world) \<Rightarrow> string list
     \<Rightarrow> 'm world \<Rightarrow> ((jserror + string) \<times> 'm world) option" where
  "reduce_phase config reduceJob partials w =
     (case hierarchicalReduce partials reduceJob (HIERARCHY_GROUP_SIZE config) w of
        None \<Rightarrow> None
      | Some (Inl error, w1) \<Rightarrow>
          Some (Inl (new_Error (''REDUCE phase failed: '' @ message error)), w1)
      | Some (Inr final, w1) \<Rightarrow>
          if trim final = []
          then Some (Inl (new_Error (''REDUCE phase failed: ''
                 @ ''Hierarchical reduce returned empty result'')), w1)
          else Some (Inr (trim final), w1))"

text \<open>The whole run.\<close>

definition summarizeWithQueue ::
  "'m collaborators \<Rightarrow> summarize_cfg \<Rightarrow> (string \<Rightarrow> 'm world \<Rightarrow> (jserror + string) \<times> 'm world)
     \<Rightarrow> doc list \<Rightarrow> 'm world \<Rightarrow> ((jserror + string) \<times> 'm world) option" where
  "summarizeWithQueue env config reduceJob docs w0 =
     (if docs = [] then Some (Inl (new_Error ''No documents provided for summarization''), w0)
      else (case map_phase env config docs (makeQueue config w0) of
              (Inl error, w1) \<Rightarrow> Some (Inl error, w1)
            | (Inr partials, w1) \<Rightarrow> reduce_phase config reduceJob partials w1))"

text \<open>
  The specification's words for what the map phase hands on: the outputs of the segments
  that succeed, one per segment and in the order of the segments; a segment without text,
  one whose attempt fails and one whose output is empty give nothing.
\<close>

fun successful_outputs ::
  "'m collaborators \<Rightarrow> summarize_cfg \<Rightarrow> doc list \<Rightarrow> 'm world \<Rightarrow> string list" where
  "successful_outputs env config [] w = []"
| "successful_outputs env config (d # ds) w =
     (if pageContent d = [] then successful_outputs env config ds w
      else (case map_attempt env config d w of
              (Inr partial, w1) \<Rightarrow>
                (if partial \<noteq> [] then [partial] else []) @ successful_outputs env config ds w1
            | (Inl error, w1) \<Rightarrow> successful_outputs env config ds w1))"

text \<open>The world in which the round for segment \<open>i\<close> starts: the one the first \<open>i\<close> rounds leave.\<close>

definition world_at ::
  "'m collaborators \<Rightarrow> summarize_cfg \<Rightarrow> doc list \<Rightarrow> 'm world \<Rightarrow> nat \<Rightarrow> 'm world" where
  "world_at env config docs w i = snd (snd (map_loop env config (take i docs) ([], w)))"

section \<open>A job of the reduce phase\<close>

text \<open>
  The closure \<open>reduceJob\<close> of \<open>summarizeWithQueue\<close>, for one job on its own: the check of the
  joined text, the prompt from \<open>combinePrompt.format\<close> (a parameter, which may throw), the
  estimate against \<open>REDUCE_OUT_MAX\<close> and its check, and inside the inner \<open>try\<close> the wait and
  the call, whose errors are wrapped. Jobs of one level run side by side; the order in
  which they act on the world is not fixed by the code.
\<close>

definition reduce_estimate_message :: "int \<Rightarrow> int \<Rightarrow> string" where
  "reduce_estimate_message estWeight tpm =
     ''REDUCE operation token estimate ('' @ show_int estWeight
       @ '') exceeds TPM limit ('' @ show_int tpm
       @ ''). Consider reducing REDUCE_OUT_MAX or input size.''"

definition reduce_call ::
  "'m collaborators \<Rightarrow> summarize_cfg \<Rightarrow> string \<Rightarrow> int \<Rightarrow> 'm world
     \<Rightarrow> (jserror + string) \<times> 'm world" where
  "reduce_call env config prompt estWeight w =
     (case model_invoke env prompt (REDUCE_OUT_MAX config) (modelState w) of
        (res, elapsed, m') \<Rightarrow>
          (let w1 = w\<lparr>clock := clock w + elapsed, modelState := m'\<rparr>
           in case res of
                Inl error \<Rightarrow> (Inl error, w1)
              | Inr res \<Rightarrow>
                  if content res = []
                  then (Inl (new_Error ''Empty response from model during reduce operation''), w1)
                  else (let actualTokens =
                              (case usedTokensFromMessage res of
                                 None \<Rightarrow> estWeight
                               | Some n \<Rightarrow> if n = 0 then estWeight else n)
                        in (Inr (trim (content res)),
                            w1\<lparr>tokenTracker :=
                                 useTokens (clock w1) actualTokens (tokenTracker w1)\<rparr>))))"

definition reduce_job ::
  "(string \<Rightarrow> jserror + string) \<Rightarrow> 'm collaborators \<Rightarrow> summarize_cfg \<Rightarrow> string \<Rightarrow> 'm world
     \<Rightarrow> (jserror + string) \<times> 'm world" where
  "reduce_job combinePrompt_format env config joined w =
     (if trim joined = []
      then (Inl (new_Error ''Empty text provided for reduce operation''), w)
      else (case combinePrompt_format joined of
              Inl error \<Rightarrow> (Inl error, w)
            | Inr prompt \<Rightarrow>
                (let promptTokens = countTokens env prompt;
                     estWeight = promptTokens + REDUCE_OUT_MAX config
                 in if estWeight > TOKENS_PER_MINUTE config
                    then (Inl (new_Error
                            (reduce_estimate_message estWeight (TOKENS_PER_MINUTE config))), w)
                    else (case (case wait_for_budget config estWeight (clock w) w of
                                  (Inl error, w1) \<Rightarrow> (Inl error, w1)
                                | (Inr _, w1) \<Rightarrow>
                                    withRetry (reduce_call env config prompt estWeight) sleep_ms
                                      maxRetries_default w1) of
                            (Inl error, w2) \<Rightarrow>
                              (Inl (new_Error (''Reduce operation failed: '' @ message error)), w2)
                          | (Inr final, w2) \<Rightarrow> (Inr final, w2)))))"

section \<open>The map phase with its queue\<close>

text \<open>
  The part of a round that comes before the call: the prompt, the estimate and its check,
  the wait. It gives the prompt and the estimate that the job is made of.
\<close>

definition map_prepare ::
  "'m collaborators \<Rightarrow> summarize_cfg \<Rightarrow> doc \<Rightarrow> 'm world \<Rightarrow> (jserror + string \<times> int) \<times> 'm world" where
  "map_prepare env config d w =
     (case mapPrompt_format env (pageContent d) of
        Inl error \<Rightarrow> (Inl error, w)
      | Inr prompt \<Rightarrow>
          (let promptTokens = countTokens env prompt;
               estWeight = promptTokens + MAP_OUT_MAX config
           in if estWeight > TOKENS_PER_MINUTE config
              then (Inl (new_Error (estimate_message estWeight (TOKENS_PER_MINUTE config))), w)
              else (case wait_for_budget config estWeight (clock w) w of
                      (Inl error, w1) \<Rightarrow> (Inl error, w1)
                    | (Inr _, w1) \<Rightarrow> (Inr (prompt, estWeight), w1))))"

text \<open>
  The loop and the queue as two parties that take turns. The loop is at its head, or it
  is suspended in \<open>await queue.add(...)\<close> on the job of a segment, or it has ended: by the
  error thrown again, or after the last segment. The queue of \<open>makeQueue\<close> holds the jobs
  that were added and have not started, and the jobs that run; it starts the job at the
  front of the former when fewer than \<open>QUEUE_CONCURRENCY\<close> jobs run. (Its second cap, on
  the starts in an interval, only makes a start come later.) A job is the segment with its
  index, its prompt and its estimate.
\<close>

datatype main_status = LoopHead | Awaiting nat | Rethrown jserror | LoopDone

type_synonym job = "nat \<times> doc \<times> string \<times> int"

record 'm loop_state =
  loop_i :: nat
  partials_now :: "string list"
  loop_world :: "'m world"
  main :: main_status
  queue_waiting :: "job list"
  queue_running :: "job list"

definition loop_start :: "'m world \<Rightarrow> 'm loop_state" where
  "loop_start w = \<lparr>loop_i = 0, partials_now = [], loop_world = w, main = LoopHead,
      queue_waiting = [], queue_running = []\<rparr>"

text \<open>The \<open>catch\<close> of a round: throw a budget timeout again, or go on with the next segment.\<close>

definition catch_round :: "jserror \<Rightarrow> 'm loop_state \<Rightarrow> 'm loop_state" where
  "catch_round error s =
     (if str_includes (message error) ''Token budget timeout''
      then s\<lparr>main := Rethrown error\<rparr>
      else s\<lparr>loop_i := Suc (loop_i s), main := LoopHead\<rparr>)"

text \<open>What the loop does when it is its turn: nothing, unless it is at its head.\<close>

definition loop_steps ::
  "'m collaborators \<Rightarrow> summarize_cfg \<Rightarrow> doc list \<Rightarrow> 'm loop_state \<Rightarrow> 'm loop_state list" where
  "loop_steps env config docs s =
     (case main s of
        LoopHead \<Rightarrow>
          (if loop_i s < length docs
           then (let d = docs ! loop_i s
                 in if pageContent d = [] then [s\<lparr>loop_i := Suc (loop_i s)\<rparr>]
                    else (case map_prepare env config d (loop_world s) of
                            (Inl error, w1) \<Rightarrow> [catch_round error (s\<lparr>loop_world := w1\<rparr>)]
                          | (Inr (prompt, estWeight), w1) \<Rightarrow>
                              [s\<lparr>loop_world := w1,
                                 queue_waiting := queue_waiting s @ [(loop_i s, d, prompt, estWeight)],
                                 main := Awaiting (loop_i s)\<rparr>]))
           else [s\<lparr>main := LoopDone\<rparr>])
      | Awaiting j \<Rightarrow> []
      | Rethrown error \<Rightarrow> []
      | LoopDone \<Rightarrow> [])"

text \<open>The queue starts a job when its concurrency allows one more.\<close>

definition queue_steps :: "summarize_cfg \<Rightarrow> 'm loop_state \<Rightarrow> 'm loop_state list" where
  "queue_steps config s =
     (case queue_waiting s of
        [] \<Rightarrow> []
      | job # rest \<Rightarrow>
          if int (length (queue_running s)) < QUEUE_CONCURRENCY config
          then [s\<lparr>queue_waiting := rest, queue_running := queue_running s @ [job]\<rparr>]
          else [])"

text \<open>
  A running job comes to its end: \<open>withRetry\<close> on the call of its segment, as far as it
  goes. If the loop awaits this job, it goes on behind the \<open>await\<close>: with the value, which
  it appends unless it is empty, or with the error, in its \<open>catch\<close>.
\<close>

definition settle ::
  "'m collaborators \<Rightarrow> summarize_cfg \<Rightarrow> 'm loop_state \<Rightarrow> job \<Rightarrow> 'm loop_state" where
  "settle env config s job =
     (case job of (j, d, prompt, estWeight) \<Rightarrow>
        (case withRetry (map_call env config d prompt estWeight) sleep_ms maxRetries_default
                (loop_world s) of
           (r, w1) \<Rightarrow>
             (let s1 = s\<lparr>loop_world := w1, queue_running := remove1 job (queue_running s)\<rparr>
              in if main s = Awaiting j
                 then (case r of
                         Inr partial \<Rightarrow>
                           s1\<lparr>partials_now := (if partial \<noteq> [] then partials_now s @ [partial]
                                                else partials_now s),
                              loop_i := Suc (loop_i s), main := LoopHead\<rparr>
                       | Inl error \<Rightarrow> catch_round error s1)
                 else s1)))"

definition successors ::
  "'m collaborators \<Rightarrow> summarize_cfg \<Rightarrow> doc list \<Rightarrow> 'm loop_state \<Rightarrow> 'm loop_state list" where
  "successors env config docs s =
     loop_steps env config docs s @ queue_steps config s
       @ map (settle env config s) (queue_running s)"

text \<open>The states that \<open>k\<close> steps lead to, whoever takes them.\<close>

fun after_steps ::
  "'m collaborators \<Rightarrow> summarize_cfg \<Rightarrow> doc list \<Rightarrow> 'm world \<Rightarrow> nat \<Rightarrow> 'm loop_state list" where
  "after_steps env config docs w 0 = [loop_start w]"
| "after_steps env config docs w (Suc k) =
     concat (map (successors env config docs) (after_steps env config docs w k))"

definition ended :: "'m loop_state \<Rightarrow> bool" where
  "ended s = (case main s of LoopHead \<Rightarrow> False | Awaiting j \<Rightarrow> False
              | Rethrown error \<Rightarrow> True | LoopDone \<Rightarrow> True)"

text \<open>
  A bound on the steps that can follow a state: three for a segment (its job is added,
  started and settled) and one for the end of the loop.
\<close>

definition steps_left :: "doc list \<Rightarrow> 'm loop_state \<Rightarrow> nat" where
  "steps_left docs s =
     (case main s of
        LoopHead \<Rightarrow> 3 * (length docs - loop_i s) + 1
      | Awaiting j \<Rightarrow> 3 * (length docs - j) - (if queue_waiting s = [] then 1 else 0)
      | Rethrown error \<Rightarrow> 0
      | LoopDone \<Rightarrow> 0)"

text \<open>
  What a state of the loop with its queue has to do with \<open>map_loop\<close>, the loop on its own.
  At the head of round \<open>i\<close> the queue is empty, and the partial results and the world are
  those of \<open>map_loop\<close> on the first \<open>i\<close> segments. While the loop awaits, the one job of the
  queue is that of its segment, made in the world that \<open>map_loop\<close> on the segments before
  has left. At the end, both are the result of \<open>map_loop\<close> on all segments.
\<close>

definition agrees ::
  "'m collaborators \<Rightarrow> summarize_cfg \<Rightarrow> doc list \<Rightarrow> 'm world \<Rightarrow> 'm loop_state \<Rightarrow> bool" where
  "agrees env config docs w s =
     (case main s of
        LoopHead \<Rightarrow>
          loop_i s \<le> length docs \<and> queue_waiting s = [] \<and> queue_running s = []
          \<and> map_loop env config (take (loop_i s) docs) ([], w)
              = (None, partials_now s, loop_world s)
      | Awaiting j \<Rightarrow>
          j = loop_i s \<and> j < length docs \<and> pageContent (docs ! j) \<noteq> []
          \<and> (\<exists>prompt estWeight wb.
                queue_waiting s @ queue_running s = [(j, docs ! j, prompt, estWeight)]
              \<and> map_loop env config (take j docs) ([], w) = (None, partials_now s, wb)
              \<and> map_prepare env config (docs ! j) wb = (Inr (prompt, estWeight), loop_world s))
      | Rethrown error \<Rightarrow>
          queue_waiting s = [] \<and> queue_running s = []
          \<and> map_loop env config docs ([], w) = (Some error, partials_now s, loop_world s)
      | LoopDone \<Rightarrow>
          queue_waiting s = [] \<and> queue_running s = []
          \<and> map_loop env config docs ([], w) = (None, partials_now s, loop_world s))"

section \<open>A small run\<close>

text \<open>
  A run to evaluate the map phase on: a limit of 1000 tokens per minute, a budget timeout
  of one second, windows of one minute, 100 tokens of output per map call. The prompt is
  the text; the text \<open>big\<close> counts 1400 tokens, the text \<open>wide\<close> 700, every other text 100.
  The model reports no usage: on \<open>down\<close> it fails with status 503 after a quarter of a
  second, on \<open>deny\<close> with status 400 and a message of its own, on \<open>mute\<close> its answer is empty, on \<open>blank\<close> it is two spaces, on any other prompt it
  is the prompt with an exclamation mark, between two spaces; these answers come at once.
  Its state counts its calls.
\<close>

definition demo_cfg :: summarize_cfg where
  "demo_cfg = \<lparr>TOKENS_PER_MINUTE = 1000, TOKEN_BUDGET_TIMEOUT = 1000,
      REQUESTS_PER_MINUTE = 60, QUEUE_INTERVAL = 60000, QUEUE_CONCURRENCY = 4,
      TOKEN_BUDGET_WINDOWS = 60000, MAP_OUT_MAX = 100, REDUCE_OUT_MAX = 100,
      HIERARCHY_GROUP_SIZE = 2\<rparr>"

text \<open>The same configuration with a cap on the output of a reduce call above the limit.\<close>

definition demo_cfg_high :: summarize_cfg where
  "demo_cfg_high = demo_cfg\<lparr>REDUCE_OUT_MAX := 2000\<rparr>"

definition demo_env :: "nat collaborators" where
  "demo_env = \<lparr>mapPrompt_format = (\<lambda>text. Inr text),
      countTokens = (\<lambda>text. if text = ''big'' then 1400 else if text = ''wide'' then 700 else 100),
      model_invoke = (\<lambda>prompt maxTokens m.
         (if prompt = ''down''
          then Inl \<lparr>message = ''Service Unavailable'', status = Some 503, retryAfter = None\<rparr>
          else if prompt = ''deny''
          then Inl \<lparr>message = ''Token budget timeout at the provider'', status = Some 400,
                     retryAfter = None\<rparr>
          else if prompt = ''mute'' then Inr \<lparr>content = [], usage_metadata = None\<rparr>
          else if prompt = ''blank'' then Inr \<lparr>content = ''  '', usage_metadata = None\<rparr>
          else Inr \<lparr>content = '' '' @ prompt @ ''! '', usage_metadata = None\<rparr>,
          if prompt = ''down'' then 250 else 0, Suc m))\<rparr>"

definition demo_doc :: "string \<Rightarrow> int \<Rightarrow> doc" where
  "demo_doc text i = \<lparr>pageContent = text, chunk = i, tokenCount = 0\<rparr>"

definition demo_world :: "nat world" where
  "demo_world = \<lparr>clock = 0, tokenTracker = new_TokenBudgetTracker demo_cfg 0, modelState = 0\<rparr>"

section \<open>The tracker within one window\<close>

lemma resetIfNeeded_within:
  "now - windowStart t < windowMs t \<Longrightarrow> resetIfNeeded now t = t"
  by (simp add: resetIfNeeded_def)

lemma resetIfNeeded_consts:
  "windowMs (resetIfNeeded now t) = windowMs t"
  "tokensPerMinute (resetIfNeeded now t) = tokensPerMinute t"
  by (simp_all add: resetIfNeeded_def)

lemma useTokens_within:
  "now - windowStart t < windowMs t \<Longrightarrow>
     useTokens now a t = t\<lparr>usedTokens := usedTokens t + a\<rparr>"
  by (simp add: useTokens_def resetIfNeeded_within)

lemma useTokens_seq_within:
  "within_window t (map fst calls) \<Longrightarrow>
     useTokens_seq calls t = t\<lparr>usedTokens := usedTokens t + sum_list (map snd calls)\<rparr>"
proof (induction calls arbitrary: t)
  case Nil
  show ?case by simp
next
  case (Cons c calls)
  obtain now a where c: "c = (now, a)" by (cases c)
  from Cons.prems c have here: "now - windowStart t < windowMs t"
    and rest: "within_window t (map fst calls)"
    by (simp_all add: within_window_def)
  let ?t1 = "t\<lparr>usedTokens := usedTokens t + a\<rparr>"
  have step: "useTokens now a t = ?t1" using here by (rule useTokens_within)
  have "within_window ?t1 (map fst calls)"
    using rest by (simp add: within_window_def)
  from Cons.IH [OF this] show ?case
    by (simp add: c step add.assoc)
qed

text \<open>
  C5. For every capacity, every run of \<open>useTokens\<close> calls and every estimate within one
  window: \<open>canUseTokens\<close> answers true exactly when the tokens used so far plus the
  estimate do not exceed the capacity; \<open>getRemainingTokens\<close> is the capacity less the tokens
  used, cut off at zero, and so never negative; \<open>useTokens\<close> adds the amount as it is, with
  no rejection and no clamping, so the tracker holds the sum of the amounts after the run,
  above the capacity or not. At any time, in the window or past it, the tokens used are
  what the lazy reset leaves.
\<close>

theorem tracker_contract:
  assumes "within_window t (map fst calls @ [now])"
  shows "usedTokens (useTokens_seq calls t) = usedTokens t + sum_list (map snd calls)
     \<and> fst (canUseTokens now e (useTokens_seq calls t))
         = (usedTokens t + sum_list (map snd calls) + e \<le> tokensPerMinute t)
     \<and> fst (getRemainingTokens now (useTokens_seq calls t))
         = max 0 (tokensPerMinute t - (usedTokens t + sum_list (map snd calls)))
     \<and> 0 \<le> fst (getRemainingTokens now (useTokens_seq calls t))
     \<and> (\<forall>now' e' s. fst (canUseTokens now' e' s)
           = (usedTokens (resetIfNeeded now' s) + e' \<le> tokensPerMinute s))
     \<and> (\<forall>now' s. fst (getRemainingTokens now' s)
           = max 0 (tokensPerMinute s - usedTokens (resetIfNeeded now' s)))
     \<and> (\<forall>now' a s. usedTokens (useTokens now' a s) = usedTokens (resetIfNeeded now' s) + a)"
proof -
  from assms have calls: "within_window t (map fst calls)"
    and here: "now - windowStart t < windowMs t"
    by (simp_all add: within_window_def)
  let ?t = "t\<lparr>usedTokens := usedTokens t + sum_list (map snd calls)\<rparr>"
  have run: "useTokens_seq calls t = ?t"
    using calls by (rule useTokens_seq_within)
  have keep: "resetIfNeeded now ?t = ?t"
    using here by (simp add: resetIfNeeded_def)
  have in_window: "usedTokens (useTokens_seq calls t) = usedTokens t + sum_list (map snd calls)
     \<and> fst (canUseTokens now e (useTokens_seq calls t))
         = (usedTokens t + sum_list (map snd calls) + e \<le> tokensPerMinute t)
     \<and> fst (getRemainingTokens now (useTokens_seq calls t))
         = max 0 (tokensPerMinute t - (usedTokens t + sum_list (map snd calls)))
     \<and> 0 \<le> fst (getRemainingTokens now (useTokens_seq calls t))"
    by (simp add: run canUseTokens_def getRemainingTokens_def Let_def keep)
  have can: "\<forall>now' e' s. fst (canUseTokens now' e' s)
           = (usedTokens (resetIfNeeded now' s) + e' \<le> tokensPerMinute s)"
    by (simp add: canUseTokens_def Let_def resetIfNeeded_consts)
  have remaining: "\<forall>now' s. fst (getRemainingTokens now' s)
           = max 0 (tokensPerMinute s - usedTokens (resetIfNeeded now' s))"
    by (simp add: getRemainingTokens_def Let_def resetIfNeeded_consts)
  have use: "\<forall>now' a s. usedTokens (useTokens now' a s)
           = usedTokens (resetIfNeeded now' s) + a"
    by (simp add: useTokens_def Let_def)
  from in_window can remaining use show ?thesis by blast
qed

text \<open>
  A window of one minute with capacity 1000: two uses of 700 and 600 tokens leave 1300
  used, above the capacity; nothing remains and no further token is admitted.
\<close>

theorem tracker_contract_witness:
  "within_window \<lparr>usedTokens = 0, windowStart = 0, windowMs = 60000, tokensPerMinute = 1000\<rparr>
      (map fst [(10, 700), (20, 600)] @ [30])
   \<and> usedTokens (useTokens_seq [(10, 700), (20, 600)]
        \<lparr>usedTokens = 0, windowStart = 0, windowMs = 60000, tokensPerMinute = 1000\<rparr>) = 1300
   \<and> \<not> fst (canUseTokens 30 1 (useTokens_seq [(10, 700), (20, 600)]
        \<lparr>usedTokens = 0, windowStart = 0, windowMs = 60000, tokensPerMinute = 1000\<rparr>))
   \<and> fst (getRemainingTokens 30 (useTokens_seq [(10, 700), (20, 600)]
        \<lparr>usedTokens = 0, windowStart = 0, windowMs = 60000, tokensPerMinute = 1000\<rparr>)) = 0"
proof -
  have w: "within_window
      \<lparr>usedTokens = 0, windowStart = 0, windowMs = 60000, tokensPerMinute = 1000\<rparr>
      (map fst [(10, 700), (20, 600)] @ [30])"
    by (simp add: within_window_def)
  note T = tracker_contract [OF w, of 1]
  note used = T [THEN conjunct1]
  note can = T [THEN conjunct2, THEN conjunct1]
  note remaining = T [THEN conjunct2, THEN conjunct2, THEN conjunct1]
  from w used can remaining show ?thesis by simp
qed

section \<open>Attempts and delays of the retry policy\<close>

lemma onFailedAttempt_probe:
  "invoked (snd (onFailedAttempt probe_sleep e a p)) = invoked p"
  by (simp add: onFailedAttempt_def probe_sleep_def Let_def)

lemma onFailedAttempt_retryable:
  assumes "status e = Some 429"
  shows "onFailedAttempt probe_sleep e a p
    = (Inr (), p\<lparr>slept := slept p
         @ [case retryAfter e of Some r \<Rightarrow> r * 1000 | None \<Rightarrow> backoff a]\<rparr>)"
  using assms by (simp add: onFailedAttempt_def probe_sleep_def Let_def)

lemma onFailedAttempt_fatal:
  assumes "status e \<noteq> Some 429" and "\<forall>st. status e = Some st \<longrightarrow> st < 500"
  shows "onFailedAttempt sleep e a s = (Inl e, s)"
  using assms by (auto simp: onFailedAttempt_def split: option.splits)

lemma pRetry_invoked:
  "invoked (snd (pRetry (scripted outcome) (onFailedAttempt probe_sleep) n a p))
     \<le> invoked p + n + 1
   \<and> invoked p < invoked (snd (pRetry (scripted outcome) (onFailedAttempt probe_sleep) n a p))"
proof (induction n arbitrary: a p)
  case 0
  let ?p1 = "p\<lparr>invoked := Suc (invoked p)\<rparr>"
  show ?case
  proof (cases "outcome (invoked p)")
    case (Inr v)
    then show ?thesis by (subst (1 2) pRetry.simps) (simp add: scripted_def)
  next
    case (Inl e)
    from onFailedAttempt_probe [of e a ?p1] have inv:
      "invoked (snd (onFailedAttempt probe_sleep e a ?p1)) = Suc (invoked p)" by simp
    have "snd (pRetry (scripted outcome) (onFailedAttempt probe_sleep) 0 a p)
            = snd (onFailedAttempt probe_sleep e a ?p1)"
      using Inl by (subst pRetry.simps) (simp add: scripted_def split: prod.splits sum.splits)
    with inv show ?thesis by simp
  qed
next
  case (Suc n)
  show ?case
  proof (cases "outcome (invoked p)")
    case (Inr v)
    then show ?thesis by (subst (1 2) pRetry.simps) (simp add: scripted_def)
  next
    case (Inl e)
    let ?p1 = "p\<lparr>invoked := Suc (invoked p)\<rparr>"
    obtain h p2 where h: "onFailedAttempt probe_sleep e a ?p1 = (h, p2)"
      by (cases "onFailedAttempt probe_sleep e a ?p1")
    from onFailedAttempt_probe [of e a ?p1] h have inv: "invoked p2 = Suc (invoked p)" by simp
    show ?thesis
    proof (cases h)
      case (Inl thrown)
      with \<open>outcome (invoked p) = Inl e\<close> h inv show ?thesis
        by (subst (1 2) pRetry.simps) (simp add: scripted_def)
    next
      case (Inr u)
      have eq: "pRetry (scripted outcome) (onFailedAttempt probe_sleep) (Suc n) a p
                 = pRetry (scripted outcome) (onFailedAttempt probe_sleep) n (Suc a) p2"
        using Inl h Inr by (subst pRetry.simps) (simp add: scripted_def)
      from Suc [of "Suc a" p2] inv show ?thesis unfolding eq by simp
    qed
  qed
qed

lemma pRetry_recovers:
  assumes "\<forall>i<k. \<exists>e. outcome (invoked p + i) = Inl e \<and> status e = Some 429"
    and "outcome (invoked p + k) = Inr v"
    and "k \<le> n"
  shows "\<exists>p'. pRetry (scripted outcome) (onFailedAttempt probe_sleep) n a p = (Inr v, p')
             \<and> invoked p' = invoked p + k + 1
             \<and> length (slept p') = length (slept p) + k"
  using assms
proof (induction k arbitrary: n a p)
  case 0
  then show ?case by (subst pRetry.simps) (simp add: scripted_def)
next
  case (Suc k)
  from Suc.prems(1) obtain e where e: "outcome (invoked p) = Inl e" "status e = Some 429"
    by force
  let ?p1 = "p\<lparr>invoked := Suc (invoked p)\<rparr>"
  define delay where "delay = (case retryAfter e of Some r \<Rightarrow> r * 1000 | None \<Rightarrow> backoff a)"
  have h: "onFailedAttempt probe_sleep e a ?p1 = (Inr (), ?p1\<lparr>slept := slept ?p1 @ [delay]\<rparr>)"
    unfolding delay_def by (rule onFailedAttempt_retryable [OF e(2)])
  let ?p2 = "?p1\<lparr>slept := slept ?p1 @ [delay]\<rparr>"
  from Suc.prems(3) obtain m where n: "n = Suc m" and m: "k \<le> m" by (cases n) simp_all
  have eq: "pRetry (scripted outcome) (onFailedAttempt probe_sleep) n a p
             = pRetry (scripted outcome) (onFailedAttempt probe_sleep) m (Suc a) ?p2"
    unfolding n using e h by (subst pRetry.simps) (simp add: scripted_def)
  have 1: "\<forall>i<k. \<exists>e. outcome (invoked ?p2 + i) = Inl e \<and> status e = Some 429"
    using Suc.prems(1) by (auto dest: spec [of _ "Suc _"])
  have 2: "outcome (invoked ?p2 + k) = Inr v" using Suc.prems(2) by simp
  from Suc.IH [OF 1 2 m, of "Suc a"] show ?case unfolding eq by auto
qed

text \<open>
  C4, as the code has it. \<open>withRetry(fn, maxRetries)\<close> runs \<open>fn\<close> at least once and at most
  \<open>maxRetries + 1\<close> times, and the default of \<open>maxRetries\<close> is 6. A function that fails with
  status 429 exactly \<open>k\<close> times and then succeeds, with \<open>k\<close> no more than \<open>maxRetries\<close>, gives its
  value after \<open>k + 1\<close> runs, each run but the first after one delay: \<open>k\<close> delays in all.
\<close>

theorem withRetry_attempts:
  "maxRetries_default = 6
   \<and> invoked (snd (withRetry (scripted outcome) probe_sleep maxRetries probe0)) \<le> maxRetries + 1
   \<and> 1 \<le> invoked (snd (withRetry (scripted outcome) probe_sleep maxRetries probe0))
   \<and> ((\<forall>i<k. \<exists>e. outcome i = Inl e \<and> status e = Some 429) \<and> outcome k = Inr v
          \<and> k \<le> maxRetries \<longrightarrow>
        (\<exists>delays. withRetry (scripted outcome) probe_sleep maxRetries probe0
                     = (Inr v, \<lparr>invoked = Suc k, slept = delays\<rparr>)
                  \<and> length delays = k))"
proof (intro conjI impI)
  show "maxRetries_default = 6" by (rule maxRetries_default_def)
next
  from pRetry_invoked [of outcome maxRetries 1 probe0]
  show "invoked (snd (withRetry (scripted outcome) probe_sleep maxRetries probe0)) \<le> maxRetries + 1"
    and "1 \<le> invoked (snd (withRetry (scripted outcome) probe_sleep maxRetries probe0))"
    by (simp_all add: withRetry_def probe0_def)
next
  assume "(\<forall>i<k. \<exists>e. outcome i = Inl e \<and> status e = Some 429) \<and> outcome k = Inr v
          \<and> k \<le> maxRetries"
  then have 1: "\<forall>i<k. \<exists>e. outcome (invoked probe0 + i) = Inl e \<and> status e = Some 429"
    and 2: "outcome (invoked probe0 + k) = Inr v" and 3: "k \<le> maxRetries"
    by (simp_all add: probe0_def)
  from pRetry_recovers [OF 1 2 3, of 1] obtain p'
    where run: "withRetry (scripted outcome) probe_sleep maxRetries probe0 = (Inr v, p')"
      and inv: "invoked p' = Suc k" and sl: "length (slept p') = k"
    by (auto simp: withRetry_def probe0_def)
  have "p' = \<lparr>invoked = Suc k, slept = slept p'\<rparr>" using inv by (cases p') simp
  then have "withRetry (scripted outcome) probe_sleep maxRetries probe0
                     = (Inr v, \<lparr>invoked = Suc k, slept = slept p'\<rparr>)"
    using run by simp
  with sl show "\<exists>delays. withRetry (scripted outcome) probe_sleep maxRetries probe0
                     = (Inr v, \<lparr>invoked = Suc k, slept = delays\<rparr>)
                  \<and> length delays = k"
    by blast
qed



text \<open>Two failures with status 429, then success, under the default: three runs, two delays.\<close>

theorem withRetry_attempts_witness:
  "(\<lambda>i. if i < 2 then Inl \<lparr>message = ''rate limited'', status = Some 429, retryAfter = None\<rparr>
         else Inr ''ok'') (0::nat)
      = Inl \<lparr>message = ''rate limited'', status = Some 429, retryAfter = None\<rparr>
   \<and> (2::nat) \<le> maxRetries_default
   \<and> (\<exists>delays. withRetry (scripted (\<lambda>i. if i < 2
            then Inl \<lparr>message = ''rate limited'', status = Some 429, retryAfter = None\<rparr>
            else Inr ''ok'')) probe_sleep maxRetries_default probe0
          = (Inr ''ok'', \<lparr>invoked = 3, slept = delays\<rparr>) \<and> length delays = 2)"
proof -
  let ?e = "\<lparr>message = ''rate limited'', status = Some 429, retryAfter = None\<rparr>"
  let ?outcome = "\<lambda>i::nat. if i < 2 then Inl ?e else Inr ''ok''"
  have pre: "(\<forall>i<2. \<exists>e. ?outcome i = Inl e \<and> status e = Some 429) \<and> ?outcome 2 = Inr ''ok''
          \<and> 2 \<le> maxRetries_default"
    by (simp add: maxRetries_default_def)
  note T = withRetry_attempts [of ?outcome maxRetries_default 2 "''ok''"]
  from T [THEN conjunct2, THEN conjunct2, THEN conjunct2, THEN mp, OF pre]
  have "\<exists>delays. withRetry (scripted ?outcome) probe_sleep maxRetries_default probe0
          = (Inr ''ok'', \<lparr>invoked = 3, slept = delays\<rparr>) \<and> length delays = 2"
    by (simp add: numeral_3_eq_3)
  then show ?thesis by (simp add: maxRetries_default_def)
qed


text \<open>
  C4, as the specification has it, says that the default is 7. A function that fails seven
  times with status 429 and then succeeds tells the two apart: with the default it has run
  seven times when \<open>withRetry\<close> gives up with the error; with 7 it runs an eighth time and
  succeeds.
\<close>

theorem default_of_seven_counterexample:
  "maxRetries_default \<noteq> 7
   \<and> withRetry (scripted (\<lambda>i. if i < 7
          then Inl \<lparr>message = ''rate limited'', status = Some 429, retryAfter = None\<rparr>
          else Inr ''ok'')) probe_sleep maxRetries_default probe0
       = (Inl \<lparr>message = ''rate limited'', status = Some 429, retryAfter = None\<rparr>,
          \<lparr>invoked = 7, slept = [2000, 4000, 8000, 8000, 8000, 8000, 8000]\<rparr>)
   \<and> withRetry (scripted (\<lambda>i. if i < 7
          then Inl \<lparr>message = ''rate limited'', status = Some 429, retryAfter = None\<rparr>
          else Inr ''ok'')) probe_sleep 7 probe0
       = (Inr ''ok'', \<lparr>invoked = 8, slept = [2000, 4000, 8000, 8000, 8000, 8000, 8000]\<rparr>)"
  by (simp add: withRetry_def pRetry.simps scripted_def probe_sleep_def probe0_def
      onFailedAttempt_def backoff_def maxRetries_default_def Let_def)

lemma withRetry_fatal:
  assumes "status e \<noteq> Some 429" and "\<forall>st. status e = Some st \<longrightarrow> st < 500"
    and "fn s = (Inl e, s1)"
  shows "withRetry fn sleep maxRetries s = (Inl e, s1)"
  unfolding withRetry_def
  by (subst pRetry.simps) (simp add: assms(3) onFailedAttempt_fatal [OF assms(1,2)])

text \<open>
  C6. When \<open>fn\<close> fails with an error whose status is neither 429 nor 500 or more, an error
  without status among them, \<open>withRetry\<close> gives that error in the state in which \<open>fn\<close> left
  it: \<open>fn\<close> has run exactly once and nothing was slept.
\<close>

theorem withRetry_no_retry:
  assumes "status e \<noteq> Some 429" and "\<forall>st. status e = Some st \<longrightarrow> st < 500"
  shows "(fn s = (Inl e, s1) \<longrightarrow> withRetry fn sleep maxRetries s = (Inl e, s1))
       \<and> (outcome 0 = Inl e \<longrightarrow>
            withRetry (scripted outcome) probe_sleep maxRetries probe0
              = (Inl e, \<lparr>invoked = 1, slept = []\<rparr>))"
proof (intro conjI impI)
  assume "fn s = (Inl e, s1)"
  with assms show "withRetry fn sleep maxRetries s = (Inl e, s1)"
    by (rule withRetry_fatal)
next
  assume "outcome 0 = Inl e"
  then have "scripted outcome probe0 = (Inl e, \<lparr>invoked = 1, slept = []\<rparr>)"
    by (simp add: scripted_def probe0_def)
  with assms show "withRetry (scripted outcome) probe_sleep maxRetries probe0
              = (Inl e, \<lparr>invoked = 1, slept = []\<rparr>)"
    by (rule withRetry_fatal)
qed


text \<open>A function that always fails with status 400, and one that throws a plain \<open>Error\<close>.\<close>

theorem withRetry_no_retry_witness:
  "status \<lparr>message = ''bad request'', status = Some 400, retryAfter = None\<rparr> \<noteq> Some 429
   \<and> withRetry (scripted (\<lambda>i. Inl \<lparr>message = ''bad request'', status = Some 400,
                                     retryAfter = None\<rparr> :: jserror + string))
        probe_sleep maxRetries_default probe0
      = (Inl \<lparr>message = ''bad request'', status = Some 400, retryAfter = None\<rparr>,
         \<lparr>invoked = 1, slept = []\<rparr>)
   \<and> status (new_Error ''boom'') \<noteq> Some 429
   \<and> withRetry (scripted (\<lambda>i. Inl (new_Error ''boom'') :: jserror + string))
        probe_sleep maxRetries_default probe0
      = (Inl (new_Error ''boom''), \<lparr>invoked = 1, slept = []\<rparr>)"
proof -
  let ?e = "\<lparr>message = ''bad request'', status = Some 400, retryAfter = None\<rparr>"
  have a1: "status ?e \<noteq> Some 429" and a2: "\<forall>st. status ?e = Some st \<longrightarrow> st < 500"
    by simp_all
  have b1: "status (new_Error ''boom'') \<noteq> Some 429"
    and b2: "\<forall>st. status (new_Error ''boom'') = Some st \<longrightarrow> st < 500"
    by (simp_all add: new_Error_def)
  have A: "withRetry (scripted (\<lambda>i. Inl ?e :: jserror + string))
        probe_sleep maxRetries_default probe0 = (Inl ?e, \<lparr>invoked = 1, slept = []\<rparr>)"
    by (rule withRetry_no_retry [OF a1 a2, where outcome = "\<lambda>i. Inl ?e"
        and maxRetries = maxRetries_default, THEN conjunct2, THEN mp, OF refl])
  have B: "withRetry (scripted (\<lambda>i. Inl (new_Error ''boom'') :: jserror + string))
        probe_sleep maxRetries_default probe0
      = (Inl (new_Error ''boom''), \<lparr>invoked = 1, slept = []\<rparr>)"
    by (rule withRetry_no_retry [OF b1 b2, where outcome = "\<lambda>i. Inl (new_Error ''boom'')"
        and maxRetries = maxRetries_default, THEN conjunct2, THEN mp, OF refl])
  show ?thesis by (intro conjI) (rule a1 A b1 B)+
qed


section \<open>Grouping into slices\<close>

text \<open>
  The number of groups is \<open>(N + G - 1) div G\<close>, the least \<open>c\<close> with \<open>N \<le> c * G\<close>: the ceiling of
  \<open>N / G\<close>.
\<close>

lemma ceil_shift:
  fixes m G :: nat
  assumes "0 < G" "0 < m"
  shows "(m + G - 1) div G = Suc ((m - 1) div G)"
proof -
  have e: "m + G - 1 = (m - 1) + G" using assms by simp
  have "G \<noteq> 0" using assms by simp
  then have "((m - 1) + G) div G = (m - 1) div G + 1" by (rule div_add_self2)
  then show ?thesis by (simp only: e Suc_eq_plus1)
qed

lemma ceil_step:
  fixes m G :: nat
  assumes "0 < G" "0 < m"
  shows "(m + G - 1) div G = Suc ((m - G + G - 1) div G)"
proof (cases "G \<le> m")
  case True
  then have "m - G + G - 1 = m - 1" by simp
  then show ?thesis using ceil_shift [OF assms] by (simp only:)
next
  case False
  then have mG: "m - G + G - 1 = G - 1" by simp
  have "(G - 1) div G = 0" using assms by simp
  moreover have "(m - 1) div G = 0" using False assms by simp
  ultimately show ?thesis using ceil_shift [OF assms] by (simp only: mG)
qed

lemma group_loop_eq:
  assumes G: "0 < G"
  shows "group_loop texts G i acc =
    Some (acc @ map (\<lambda>k. slice texts (i + k * G) (i + k * G + G))
                   [0..<(length texts - i + G - 1) div G])"
proof (induction "length texts - i" arbitrary: i acc rule: less_induct)
  case less
  show ?case
  proof (cases "i < length texts")
    case False
    then have "(length texts - i + G - 1) div G = 0" using G by simp
    with False show ?thesis by (subst group_loop.simps) simp
  next
    case True
    let ?m = "length texts - i"
    have lt: "length texts - (i + G) < length texts - i" using True G by simp
    have c: "(?m + G - 1) div G = Suc ((length texts - (i + G) + G - 1) div G)"
      using ceil_step [OF G, of ?m] True by simp
    have "group_loop texts G i acc
        = group_loop texts G (i + G) (acc @ [slice texts i (i + G)])"
      using True by (subst group_loop.simps) simp
    also have "\<dots> = Some ((acc @ [slice texts i (i + G)])
         @ map (\<lambda>k. slice texts (i + G + k * G) (i + G + k * G + G))
               [0..<(length texts - (i + G) + G - 1) div G])"
      by (rule less [OF lt])
    also have "\<dots> = Some (acc @ map (\<lambda>k. slice texts (i + k * G) (i + k * G + G))
                   [0..<(?m + G - 1) div G])"
      unfolding c by (simp add: map_upt_Suc ac_simps del: upt_Suc)
    finally show ?thesis .
  qed
qed


lemma length_slice: "length (slice xs i j) = min j (length xs) - i"
  by (simp add: slice_def min.commute)

lemma concat_slices:
  "concat (map (\<lambda>k. slice xs (k * G) (k * G + G)) [0..<c]) = take (c * G) xs"
proof (induction c)
  case 0
  show ?case by simp
next
  case (Suc c)
  have "take (c * G) xs = take (c * G) (take (c * G + G) xs)"
    by (simp add: min_def)
  then have "take (c * G) xs @ slice xs (c * G) (c * G + G) = take (c * G + G) xs"
    by (simp only: slice_def append_take_drop_id)
  with Suc show ?case by (simp add: add.commute)
qed

lemma ceil_bounds:
  fixes N G :: nat
  assumes G: "0 < G"
  shows "N \<le> (N + G - 1) div G * G"
    and "0 < N \<Longrightarrow> ((N + G - 1) div G - 1) * G < N"
proof -
  have "(N + G - 1) mod G < G" using G by simp
  moreover have "(N + G - 1) div G * G + (N + G - 1) mod G = N + G - 1" by simp
  ultimately show "N \<le> (N + G - 1) div G * G" using G by linarith
next
  assume N: "0 < N"
  have "(N + G - 1) div G = Suc ((N - 1) div G)" using ceil_shift [OF G N] .
  then have "((N + G - 1) div G - 1) * G = (N - 1) div G * G" by simp
  also have "\<dots> \<le> N - 1" by simp
  finally show "((N + G - 1) div G - 1) * G < N" using N by simp
qed

lemma below_ceil:
  fixes N G k :: nat
  assumes G: "0 < G" and k: "k < (N + G - 1) div G"
  shows "k * G < N"
proof -
  have N: "0 < N"
  proof (rule ccontr)
    assume "\<not> 0 < N"
    then have "(N + G - 1) div G = 0" using G by simp
    with k show False by simp
  qed
  from k have "k \<le> (N + G - 1) div G - 1" by simp
  then have "k * G \<le> ((N + G - 1) div G - 1) * G" by (rule mult_le_mono1)
  also note ceil_bounds(2) [OF G N]
  finally show ?thesis .
qed

lemma slice_sizes:
  fixes G k :: nat
  assumes G: "0 < G" and k: "k < (length xs + G - 1) div G"
  shows "length (slice xs (k * G) (k * G + G))
         = (if Suc k < (length xs + G - 1) div G then G else length xs - k * G)"
    and "0 < length (slice xs (k * G) (k * G + G))"
    and "length (slice xs (k * G) (k * G + G)) \<le> G"
proof -
  have low: "k * G < length xs" using below_ceil [OF G k] .
  show "length (slice xs (k * G) (k * G + G))
         = (if Suc k < (length xs + G - 1) div G then G else length xs - k * G)"
  proof (cases "Suc k < (length xs + G - 1) div G")
    case True
    from below_ceil [OF G True] have "k * G + G \<le> length xs" by simp
    with True show ?thesis by (simp add: length_slice)
  next
    case False
    with k have "(length xs + G - 1) div G = Suc k" by simp
    with ceil_bounds(1) [OF G, of "length xs"] have "length xs \<le> k * G + G" by simp
    with False show ?thesis by (simp add: length_slice)
  qed
  show "0 < length (slice xs (k * G) (k * G + G))"
    using low G by (simp add: length_slice)
  show "length (slice xs (k * G) (k * G + G)) \<le> G"
    by (simp add: length_slice)
qed

section \<open>One level of jobs\<close>

lemma promise_all_length:
  "promise_all ps s = (Inr vs, s') \<Longrightarrow> length vs = length ps"
proof (induction ps arbitrary: s vs s')
  case Nil
  then show ?case by simp
next
  case (Cons p ps)
  then show ?case
    by (auto split: prod.splits sum.splits)
qed

lemma promise_all_succeeds:
  assumes "always_succeeds job"
  shows "\<exists>vs s'. promise_all (map (\<lambda>g. job (f g)) gs) s = (Inr vs, s')"
proof (induction gs arbitrary: s)
  case Nil
  show ?case by simp
next
  case (Cons g gs)
  from assms obtain v s1 where v: "job (f g) s = (Inr v, s1)"
    unfolding always_succeeds_def by blast
  from Cons obtain vs s2 where "promise_all (map (\<lambda>g. job (f g)) gs) s1 = (Inr vs, s2)"
    by blast
  with v show ?case by simp
qed

lemma promise_all_logged:
  "\<exists>outcomes r s'.
     promise_all (map (logged job) ts) (log, s) = (r, (log @ zip ts outcomes, s'))
     \<and> length outcomes = length ts
     \<and> (\<forall>level. r = Inr level \<longrightarrow> outcomes = map Inr level)
     \<and> (\<forall>e. r = Inl e \<longrightarrow> Inl e \<in> set outcomes)"
proof (induction ts arbitrary: log s)
  case Nil
  show ?case by simp
next
  case (Cons t ts)
  obtain r0 s1 where r0: "job t s = (r0, s1)" by (cases "job t s")
  from Cons [of "log @ [(t, r0)]" s1] obtain outcomes r s'
    where run: "promise_all (map (logged job) ts) (log @ [(t, r0)], s1)
                 = (r, ((log @ [(t, r0)]) @ zip ts outcomes, s'))"
      and len: "length outcomes = length ts"
      and ok: "\<forall>level. r = Inr level \<longrightarrow> outcomes = map Inr level"
      and bad: "\<forall>e. r = Inl e \<longrightarrow> Inl e \<in> set outcomes"
    by blast
  let ?r = "case r0 of Inl e \<Rightarrow> Inl e
            | Inr v \<Rightarrow> (case r of Inl e \<Rightarrow> Inl e | Inr vs \<Rightarrow> Inr (v # vs))"
  have "promise_all (map (logged job) (t # ts)) (log, s)
          = (?r, (log @ zip (t # ts) (r0 # outcomes), s'))"
    by (simp add: logged_def r0 run)
  moreover have "length (r0 # outcomes) = length (t # ts)" using len by simp
  moreover have "\<forall>level. ?r = Inr level \<longrightarrow> r0 # outcomes = map Inr level"
    using ok by (auto split: sum.splits)
  moreover have "\<forall>e. ?r = Inl e \<longrightarrow> Inl e \<in> set (r0 # outcomes)"
    using bad by (auto split: sum.splits)
  ultimately show ?case by blast
qed


section \<open>Rounds of the hierarchical reduce\<close>

lemma groups_eq:
  assumes G: "0 < G"
  shows "group_loop texts G 0 [] =
    Some (map (\<lambda>k. slice texts (k * G) (k * G + G)) [0..<(length texts + G - 1) div G])"
  using group_loop_eq [OF G, of texts 0 "[]"] by simp

lemma hierarchicalReduce_base:
  "length texts \<le> G \<Longrightarrow>
     hierarchicalReduce texts job G s = Some (job (join_texts texts) s)"
  by (subst hierarchicalReduce.simps) simp

lemma hierarchicalReduce_step:
  assumes G: "0 < G" and N: "G < length texts"
  shows "hierarchicalReduce texts job G s =
    (case promise_all (map (\<lambda>g. job (join_texts g))
             (map (\<lambda>k. slice texts (k * G) (k * G + G)) [0..<(length texts + G - 1) div G])) s of
       (Inl e, s') \<Rightarrow> Some (Inl e, s')
     | (Inr level, s') \<Rightarrow> hierarchicalReduce level job G s')"
  using N by (subst hierarchicalReduce.simps) (simp add: groups_eq [OF G])

text \<open>
  With groups of two or more, a level that does not fit in one group is followed by a
  shorter one, and \<open>hierarchicalReduce\<close> returns, whatever the jobs do.
\<close>

lemma fewer_groups:
  fixes N G :: nat
  assumes "2 \<le> G" "G < N"
  shows "(N + G - 1) div G < N"
proof -
  have "N + G - 1 < N * G"
  proof -
    have "N + G \<le> N + N" using assms by simp
    also have "\<dots> = N * 2" by simp
    also have "\<dots> \<le> N * G" using assms by simp
    finally show ?thesis using assms by simp
  qed
  then show ?thesis using assms by (simp add: div_less_iff_less_mult)
qed

lemma hierarchicalReduce_returns:
  assumes G: "2 \<le> G"
  shows "\<exists>r. hierarchicalReduce texts job G s = Some r"
proof (induction "length texts" arbitrary: texts s rule: less_induct)
  case less
  show ?case
  proof (cases "length texts \<le> G")
    case True
    then show ?thesis by (simp add: hierarchicalReduce_base)
  next
    case False
    then have N: "G < length texts" by simp
    have G0: "0 < G" using G by simp
    let ?gs = "map (\<lambda>k. slice texts (k * G) (k * G + G)) [0..<(length texts + G - 1) div G]"
    obtain r s' where run: "promise_all (map (\<lambda>g. job (join_texts g)) ?gs) s = (r, s')"
      by (cases "promise_all (map (\<lambda>g. job (join_texts g)) ?gs) s")
    show ?thesis
    proof (cases r)
      case (Inl e)
      with run show ?thesis by (simp add: hierarchicalReduce_step [OF G0 N])
    next
      case (Inr level)
      with run have "length level = (length texts + G - 1) div G"
        using promise_all_length [of "map (\<lambda>g. job (join_texts g)) ?gs" s level s'] by simp
      then have "length level < length texts" using fewer_groups [OF G N] by simp
      from less [OF this] obtain r' where "hierarchicalReduce level job G s' = Some r'"
        by blast
      with run Inr show ?thesis by (simp add: hierarchicalReduce_step [OF G0 N])
    qed
  qed
qed

text \<open>
  With groups of one, a level of two or more texts is followed by a level of the same
  length. When no job fails, no level is the last.
\<close>

lemma hierarchicalReduce_no_return:
  "hierarchicalReduce texts job G s = Some r \<Longrightarrow>
     always_succeeds job \<longrightarrow> \<not> (G = 1 \<and> 2 \<le> length texts)"
proof (erule hierarchicalReduce.raw_induct [rotated], goal_cases)
  case (1 hr texts job G s r)
  show ?case
  proof (intro impI notI)
    assume job: "always_succeeds job" and bad: "G = 1 \<and> 2 \<le> length texts"
    from bad have G0: "0 < G" and N: "G < length texts" by simp_all
    define gs where
      "gs = map (\<lambda>k. slice texts (k * G) (k * G + G)) [0..<(length texts + G - 1) div G]"
    have g: "group_loop texts G 0 [] = Some gs"
      unfolding gs_def by (rule groups_eq [OF G0])
    from promise_all_succeeds [OF job] obtain level s'
      where run: "promise_all (map (\<lambda>g. job (join_texts g)) gs) s = (Inr level, s')"
      by blast
    have "length level = length gs"
      using promise_all_length [OF run] by simp
    with bad have len: "2 \<le> length level" by (simp add: gs_def)
    from 1(2) N have "hr level job G s' = Some r"
      by (simp add: g run)
    from 1(1) [OF this] job bad len show False by simp
  qed
qed

lemma hierarchicalReduce_diverges:
  assumes "always_succeeds job" and "2 \<le> length texts"
  shows "hierarchicalReduce texts job 1 s = None"
proof (cases "hierarchicalReduce texts job 1 s")
  case None
  then show ?thesis .
next
  case (Some r)
  from hierarchicalReduce_no_return [OF this] assms show ?thesis by simp
qed


lemma hierarchicalReduce_round:
  assumes "G < length texts"
    and "group_loop texts G 0 [] = Some gs"
    and "promise_all (map (\<lambda>g. job (join_texts g)) gs) s = (Inr level, s')"
  shows "hierarchicalReduce texts job G s = hierarchicalReduce level job G s'"
  using assms by (subst hierarchicalReduce.simps) simp

lemma logged_run:
  "logged job t (log, s) = (fst (job t s), (log @ [(t, fst (job t s))], snd (job t s)))"
  by (simp add: logged_def split: prod.splits)

lemma first_round_run:
  assumes G: "0 < G"
  shows "(length texts \<le> G \<longrightarrow>
            hierarchicalReduce texts (logged job) G (log, s)
              = Some (fst (job (join_texts texts) s),
                      (log @ [(join_texts texts, fst (job (join_texts texts) s))],
                       snd (job (join_texts texts) s))))
       \<and> (G < length texts \<longrightarrow>
            (\<exists>groups outcomes r s'.
                group_loop texts G 0 [] = Some groups
              \<and> length groups = (length texts + G - 1) div G
              \<and> (length groups - 1) * G < length texts
              \<and> length texts \<le> length groups * G
              \<and> groups = map (\<lambda>k. slice texts (k * G) (k * G + G)) [0..<length groups]
              \<and> concat groups = texts
              \<and> (\<forall>k<length groups. 0 < length (groups ! k) \<and> length (groups ! k) \<le> G
                    \<and> (Suc k < length groups \<longrightarrow> length (groups ! k) = G))
              \<and> length outcomes = length groups
              \<and> promise_all (map (\<lambda>g. logged job (join_texts g)) groups) (log, s)
                    = (r, (log @ zip (map join_texts groups) outcomes, s'))
              \<and> (\<forall>level. r = Inr level \<longrightarrow> outcomes = map Inr level)
              \<and> (\<forall>e. r = Inl e \<longrightarrow> Inl e \<in> set outcomes)
              \<and> hierarchicalReduce texts (logged job) G (log, s)
                    = (case r of
                         Inl e \<Rightarrow> Some (Inl e, (log @ zip (map join_texts groups) outcomes, s'))
                       | Inr level \<Rightarrow>
                           hierarchicalReduce level (logged job) G
                             (log @ zip (map join_texts groups) outcomes, s'))))"
proof (intro conjI impI)
  assume "length texts \<le> G"
  then show "hierarchicalReduce texts (logged job) G (log, s)
              = Some (fst (job (join_texts texts) s),
                      (log @ [(join_texts texts, fst (job (join_texts texts) s))],
                       snd (job (join_texts texts) s)))"
    by (simp only: hierarchicalReduce_base logged_run)
next
  assume N: "G < length texts"
  define c where "c = (length texts + G - 1) div G"
  define gs where "gs = map (\<lambda>k. slice texts (k * G) (k * G + G)) [0..<c]"
  have len: "length gs = c" by (simp add: gs_def)
  have g: "group_loop texts G 0 [] = Some gs"
    unfolding gs_def c_def by (rule groups_eq [OF G])
  have pos: "0 < length texts" using N by (rule le_less_trans [OF le0])
  have low: "(length gs - 1) * G < length texts"
    unfolding len c_def by (rule ceil_bounds(2) [OF G pos])
  have high: "length texts \<le> length gs * G"
    unfolding len c_def by (rule ceil_bounds(1) [OF G])
  have slices: "gs = map (\<lambda>k. slice texts (k * G) (k * G + G)) [0..<length gs]"
    unfolding len by (rule gs_def)
  have all: "concat gs = texts"
    using high by (simp add: gs_def concat_slices len)
  have sizes: "\<forall>k<length gs. 0 < length (gs ! k) \<and> length (gs ! k) \<le> G
                    \<and> (Suc k < length gs \<longrightarrow> length (gs ! k) = G)"
  proof (intro allI impI)
    fix k assume "k < length gs"
    then have k: "k < (length texts + G - 1) div G" by (simp add: len c_def)
    have nth: "gs ! k = slice texts (k * G) (k * G + G)"
      using k by (simp add: gs_def c_def)
    from slice_sizes [OF G k] show "0 < length (gs ! k) \<and> length (gs ! k) \<le> G
                    \<and> (Suc k < length gs \<longrightarrow> length (gs ! k) = G)"
      by (simp add: nth len c_def)
  qed
  from promise_all_logged [of job "map join_texts gs" log s] obtain outcomes r s'
    where run: "promise_all (map (logged job) (map join_texts gs)) (log, s)
                  = (r, (log @ zip (map join_texts gs) outcomes, s'))"
      and olen: "length outcomes = length (map join_texts gs)"
      and ok: "\<forall>level. r = Inr level \<longrightarrow> outcomes = map Inr level"
      and bad: "\<forall>e. r = Inl e \<longrightarrow> Inl e \<in> set outcomes"
    by blast
  have fuse: "map (\<lambda>g. logged job (join_texts g)) gs = map (logged job) (map join_texts gs)"
    by simp
  have run': "promise_all (map (\<lambda>g. logged job (join_texts g)) gs) (log, s)
                  = (r, (log @ zip (map join_texts gs) outcomes, s'))"
    by (simp only: fuse run)
  have rec: "hierarchicalReduce texts (logged job) G (log, s)
                    = (case r of
                         Inl e \<Rightarrow> Some (Inl e, (log @ zip (map join_texts gs) outcomes, s'))
                       | Inr level \<Rightarrow>
                           hierarchicalReduce level (logged job) G
                             (log @ zip (map join_texts gs) outcomes, s'))"
    using N by (subst hierarchicalReduce.simps) (simp add: g run' split: sum.splits)
  from g len low high slices all sizes olen run' ok bad rec
  show "\<exists>groups outcomes r s'.
                group_loop texts G 0 [] = Some groups
              \<and> length groups = (length texts + G - 1) div G
              \<and> (length groups - 1) * G < length texts
              \<and> length texts \<le> length groups * G
              \<and> groups = map (\<lambda>k. slice texts (k * G) (k * G + G)) [0..<length groups]
              \<and> concat groups = texts
              \<and> (\<forall>k<length groups. 0 < length (groups ! k) \<and> length (groups ! k) \<le> G
                    \<and> (Suc k < length groups \<longrightarrow> length (groups ! k) = G))
              \<and> length outcomes = length groups
              \<and> promise_all (map (\<lambda>g. logged job (join_texts g)) groups) (log, s)
                    = (r, (log @ zip (map join_texts groups) outcomes, s'))
              \<and> (\<forall>level. r = Inr level \<longrightarrow> outcomes = map Inr level)
              \<and> (\<forall>e. r = Inl e \<longrightarrow> Inl e \<in> set outcomes)
              \<and> hierarchicalReduce texts (logged job) G (log, s)
                    = (case r of
                         Inl e \<Rightarrow> Some (Inl e, (log @ zip (map join_texts groups) outcomes, s'))
                       | Inr level \<Rightarrow>
                           hierarchicalReduce level (logged job) G
                             (log @ zip (map join_texts groups) outcomes, s'))"
    unfolding c_def [symmetric]
    by (intro exI [of _ gs] exI [of _ outcomes] exI [of _ r] exI [of _ s']) simp
qed


text \<open>
  What \<open>join\<close> gives: with the separator put in front, the texts each with the separator in
  front of it, one after the other.
\<close>

lemma join_texts_concat:
  "ts \<noteq> [] \<Longrightarrow> separator @ join_texts ts = concat (map (\<lambda>t. separator @ t) ts)"
  by (induction ts rule: join_texts.induct) simp_all

text \<open>
  C7. For a list of length \<open>N\<close> and a group size \<open>G\<close> of at least one. The argument of a
  call is a list of texts joined: all of them, in their order, with the separator of two
  line feeds, three hyphens and two line feeds between one and the next. If \<open>N \<le> G\<close>,
  \<open>hierarchicalReduce\<close> calls the job exactly once, on all the texts joined, and returns what
  the call gives. If \<open>N > G\<close>, the groups are the slices \<open>texts.slice(k * G, k * G + G)\<close> for
  \<open>k\<close> from 0, in that order; there are as many as the ceiling of \<open>N / G\<close>; together they are
  the list; none is empty or longer than \<open>G\<close>, and all but the last have length \<open>G\<close>. The
  first round calls the job exactly once for each group, in the order of the groups, on the
  group's texts joined. When every call succeeds, the values are collected in the order of
  the groups, and the function goes on with that list; otherwise it fails with the error of
  a call that failed.
\<close>

theorem hierarchicalReduce_first_round:
  assumes G: "0 < G"
  shows "separator = [CHR 0x0A, CHR 0x0A, CHR ''-'', CHR ''-'', CHR ''-'', CHR 0x0A, CHR 0x0A]
       \<and> join_texts [] = []
       \<and> (\<forall>ts. ts \<noteq> [] \<longrightarrow>
             separator @ join_texts ts = concat (map (\<lambda>t. separator @ t) ts))
       \<and> (length texts \<le> G \<longrightarrow>
            hierarchicalReduce texts (logged job) G (log, s)
              = Some (fst (job (join_texts texts) s),
                      (log @ [(join_texts texts, fst (job (join_texts texts) s))],
                       snd (job (join_texts texts) s))))
       \<and> (G < length texts \<longrightarrow>
            (\<exists>groups outcomes r s'.
                group_loop texts G 0 [] = Some groups
              \<and> length groups = (length texts + G - 1) div G
              \<and> (length groups - 1) * G < length texts
              \<and> length texts \<le> length groups * G
              \<and> groups = map (\<lambda>k. slice texts (k * G) (k * G + G)) [0..<length groups]
              \<and> concat groups = texts
              \<and> (\<forall>k<length groups. 0 < length (groups ! k) \<and> length (groups ! k) \<le> G
                    \<and> (Suc k < length groups \<longrightarrow> length (groups ! k) = G))
              \<and> length outcomes = length groups
              \<and> promise_all (map (\<lambda>g. logged job (join_texts g)) groups) (log, s)
                    = (r, (log @ zip (map join_texts groups) outcomes, s'))
              \<and> (\<forall>level. r = Inr level \<longrightarrow>
                    outcomes = map Inr level
                    \<and> hierarchicalReduce texts (logged job) G (log, s)
                        = hierarchicalReduce level (logged job) G
                            (log @ zip (map join_texts groups) outcomes, s'))
              \<and> (\<forall>e. r = Inl e \<longrightarrow>
                    (\<exists>e'. Inl e' \<in> set outcomes
                       \<and> hierarchicalReduce texts (logged job) G (log, s)
                           = Some (Inl e', (log @ zip (map join_texts groups) outcomes, s'))))))"
proof -
  note run = first_round_run [OF G, of texts job log s]
  have sep: "separator = [CHR 0x0A, CHR 0x0A, CHR ''-'', CHR ''-'', CHR ''-'', CHR 0x0A, CHR 0x0A]"
    by (rule separator_def)
  have nil: "join_texts [] = []" by simp
  have joined: "\<forall>ts. ts \<noteq> [] \<longrightarrow>
             separator @ join_texts ts = concat (map (\<lambda>t. separator @ t) ts)"
    using join_texts_concat by blast
  have base: "length texts \<le> G \<longrightarrow>
            hierarchicalReduce texts (logged job) G (log, s)
              = Some (fst (job (join_texts texts) s),
                      (log @ [(join_texts texts, fst (job (join_texts texts) s))],
                       snd (job (join_texts texts) s)))"
    using run by (rule conjunct1)
  have step: "G < length texts \<longrightarrow>
            (\<exists>groups outcomes r s'.
                group_loop texts G 0 [] = Some groups
              \<and> length groups = (length texts + G - 1) div G
              \<and> (length groups - 1) * G < length texts
              \<and> length texts \<le> length groups * G
              \<and> groups = map (\<lambda>k. slice texts (k * G) (k * G + G)) [0..<length groups]
              \<and> concat groups = texts
              \<and> (\<forall>k<length groups. 0 < length (groups ! k) \<and> length (groups ! k) \<le> G
                    \<and> (Suc k < length groups \<longrightarrow> length (groups ! k) = G))
              \<and> length outcomes = length groups
              \<and> promise_all (map (\<lambda>g. logged job (join_texts g)) groups) (log, s)
                    = (r, (log @ zip (map join_texts groups) outcomes, s'))
              \<and> (\<forall>level. r = Inr level \<longrightarrow>
                    outcomes = map Inr level
                    \<and> hierarchicalReduce texts (logged job) G (log, s)
                        = hierarchicalReduce level (logged job) G
                            (log @ zip (map join_texts groups) outcomes, s'))
              \<and> (\<forall>e. r = Inl e \<longrightarrow>
                    (\<exists>e'. Inl e' \<in> set outcomes
                       \<and> hierarchicalReduce texts (logged job) G (log, s)
                           = Some (Inl e', (log @ zip (map join_texts groups) outcomes, s')))))"
  proof
    assume N: "G < length texts"
    from run [THEN conjunct2, THEN mp, OF N] obtain groups outcomes r s'
      where 1: "group_loop texts G 0 [] = Some groups"
        and 2: "length groups = (length texts + G - 1) div G"
        and 3: "(length groups - 1) * G < length texts"
        and 4: "length texts \<le> length groups * G"
        and 5: "groups = map (\<lambda>k. slice texts (k * G) (k * G + G)) [0..<length groups]"
        and 6: "concat groups = texts"
        and 7: "\<forall>k<length groups. 0 < length (groups ! k) \<and> length (groups ! k) \<le> G
                    \<and> (Suc k < length groups \<longrightarrow> length (groups ! k) = G)"
        and 8: "length outcomes = length groups"
        and 9: "promise_all (map (\<lambda>g. logged job (join_texts g)) groups) (log, s)
                    = (r, (log @ zip (map join_texts groups) outcomes, s'))"
        and 10: "\<forall>level. r = Inr level \<longrightarrow> outcomes = map Inr level"
        and bad: "\<forall>e. r = Inl e \<longrightarrow> Inl e \<in> set outcomes"
        and 11: "hierarchicalReduce texts (logged job) G (log, s)
                    = (case r of
                         Inl e \<Rightarrow> Some (Inl e, (log @ zip (map join_texts groups) outcomes, s'))
                       | Inr level \<Rightarrow>
                           hierarchicalReduce level (logged job) G
                             (log @ zip (map join_texts groups) outcomes, s'))"
      by blast
    have ok: "\<forall>level. r = Inr level \<longrightarrow>
                    outcomes = map Inr level
                    \<and> hierarchicalReduce texts (logged job) G (log, s)
                        = hierarchicalReduce level (logged job) G
                            (log @ zip (map join_texts groups) outcomes, s')"
      using 10 11 by simp
    have ko: "\<forall>e. r = Inl e \<longrightarrow>
                    (\<exists>e'. Inl e' \<in> set outcomes
                       \<and> hierarchicalReduce texts (logged job) G (log, s)
                           = Some (Inl e', (log @ zip (map join_texts groups) outcomes, s')))"
      using bad 11 by auto
    from 1 2 3 4 5 6 7 8 9 ok ko
    show "\<exists>groups outcomes r s'.
                group_loop texts G 0 [] = Some groups
              \<and> length groups = (length texts + G - 1) div G
              \<and> (length groups - 1) * G < length texts
              \<and> length texts \<le> length groups * G
              \<and> groups = map (\<lambda>k. slice texts (k * G) (k * G + G)) [0..<length groups]
              \<and> concat groups = texts
              \<and> (\<forall>k<length groups. 0 < length (groups ! k) \<and> length (groups ! k) \<le> G
                    \<and> (Suc k < length groups \<longrightarrow> length (groups ! k) = G))
              \<and> length outcomes = length groups
              \<and> promise_all (map (\<lambda>g. logged job (join_texts g)) groups) (log, s)
                    = (r, (log @ zip (map join_texts groups) outcomes, s'))
              \<and> (\<forall>level. r = Inr level \<longrightarrow>
                    outcomes = map Inr level
                    \<and> hierarchicalReduce texts (logged job) G (log, s)
                        = hierarchicalReduce level (logged job) G
                            (log @ zip (map join_texts groups) outcomes, s'))
              \<and> (\<forall>e. r = Inl e \<longrightarrow>
                    (\<exists>e'. Inl e' \<in> set outcomes
                       \<and> hierarchicalReduce texts (logged job) G (log, s)
                           = Some (Inl e', (log @ zip (map join_texts groups) outcomes, s'))))"
      by (intro exI [of _ groups] exI [of _ outcomes] exI [of _ r] exI [of _ s'] conjI)
  qed
  from sep nil joined base step show ?thesis by (intro conjI)
qed


text \<open>
  Group size two: two texts make one call, on the nine characters of \<open>a\<close>, the separator
  and \<open>b\<close>; three texts make the groups \<open>[a, b]\<close> and \<open>[c]\<close> and a first round of two calls.
\<close>

theorem hierarchicalReduce_first_round_witness:
  "0 < (2::nat)
   \<and> join_texts [''a'', ''b'']
        = [CHR ''a'', CHR 0x0A, CHR 0x0A, CHR ''-'', CHR ''-'', CHR ''-'', CHR 0x0A, CHR 0x0A,
           CHR ''b'']
   \<and> hierarchicalReduce [''a'', ''b''] (logged (\<lambda>t s. (Inr ''S'', s))) 2 ([], ())
        = Some (Inr ''S'',
            ([([CHR ''a'', CHR 0x0A, CHR 0x0A, CHR ''-'', CHR ''-'', CHR ''-'', CHR 0x0A,
                CHR 0x0A, CHR ''b''], Inr ''S'')], ()))
   \<and> (\<exists>outcomes r s'.
         group_loop [''a'', ''b'', ''c''] 2 0 [] = Some [[''a'', ''b''], [''c'']]
       \<and> promise_all (map (\<lambda>g. logged (\<lambda>t s. (Inr ''S'', s)) (join_texts g))
              [[''a'', ''b''], [''c'']]) ([], ())
            = (r, (zip [[CHR ''a'', CHR 0x0A, CHR 0x0A, CHR ''-'', CHR ''-'', CHR ''-'',
                         CHR 0x0A, CHR 0x0A, CHR ''b''], ''c''] outcomes, s'))
       \<and> length outcomes = 2)"
proof -
  have G: "0 < (2::nat)" by simp
  note T1 = hierarchicalReduce_first_round
    [OF G, of "[''a'', ''b'']" "\<lambda>t s. (Inr ''S'', s)" "[]" "()"]
  note sep = T1 [THEN conjunct1]
  note joined = T1 [THEN conjunct2, THEN conjunct2, THEN conjunct1, rule_format]
  have "separator @ join_texts [''a'', ''b''] = separator @ ''a'' @ separator @ ''b''"
    using joined [of "[''a'', ''b'']"] by (simp del: join_texts.simps)
  then have "join_texts [''a'', ''b''] = ''a'' @ separator @ ''b''"
    by (simp only: same_append_eq)
  then have ab: "join_texts [''a'', ''b'']
        = [CHR ''a'', CHR 0x0A, CHR 0x0A, CHR ''-'', CHR ''-'', CHR ''-'', CHR 0x0A, CHR 0x0A,
           CHR ''b'']"
    by (simp only: sep) simp
  have "separator @ join_texts [''c''] = separator @ ''c''"
    using joined [of "[''c'']"] by (simp del: join_texts.simps)
  then have c: "join_texts [''c''] = ''c''" by (simp only: same_append_eq)
  have le: "length [''a'', ''b''] \<le> 2" by simp
  have one: "hierarchicalReduce [''a'', ''b''] (logged (\<lambda>t s. (Inr ''S'', s))) 2 ([], ())
        = Some (Inr ''S'',
            ([([CHR ''a'', CHR 0x0A, CHR 0x0A, CHR ''-'', CHR ''-'', CHR ''-'', CHR 0x0A,
                CHR 0x0A, CHR ''b''], Inr ''S'')], ()))"
    using T1 [THEN conjunct2, THEN conjunct2, THEN conjunct2, THEN conjunct1, THEN mp, OF le]
    by (simp only: ab) simp
  note T2 = hierarchicalReduce_first_round
    [OF G, of "[''a'', ''b'', ''c'']" "\<lambda>t s. (Inr ''S'', s)" "[]" "()"]
  have N: "2 < length [''a'', ''b'', ''c'']" by simp
  from T2 [THEN conjunct2, THEN conjunct2, THEN conjunct2, THEN conjunct2, THEN mp, OF N]
  obtain groups outcomes r s'
    where g: "group_loop [''a'', ''b'', ''c''] 2 0 [] = Some groups"
      and c2: "length groups = (length [''a'', ''b'', ''c''] + 2 - 1) div 2"
      and sl: "groups = map (\<lambda>k. slice [''a'', ''b'', ''c''] (k * 2) (k * 2 + 2)) [0..<length groups]"
      and ol: "length outcomes = length groups"
      and run: "promise_all (map (\<lambda>g. logged (\<lambda>t s. (Inr ''S'', s)) (join_texts g)) groups)
                  ([], ()) = (r, ([] @ zip (map join_texts groups) outcomes, s'))"
    by blast
  from c2 have len: "length groups = 2" by simp
  have "[0..<2] = [0, 1]" by (simp add: upt_rec)
  with sl len have gs: "groups = [[''a'', ''b''], [''c'']]"
    by (simp add: slice_def)
  have texts: "map join_texts [[''a'', ''b''], [''c'']]
         = [[CHR ''a'', CHR 0x0A, CHR 0x0A, CHR ''-'', CHR ''-'', CHR ''-'',
                         CHR 0x0A, CHR 0x0A, CHR ''b''], ''c'']"
    by (simp only: list.map ab c)
  from g ol run have ex: "\<exists>outcomes r s'.
         group_loop [''a'', ''b'', ''c''] 2 0 [] = Some [[''a'', ''b''], [''c'']]
       \<and> promise_all (map (\<lambda>g. logged (\<lambda>t s. (Inr ''S'', s)) (join_texts g))
              [[''a'', ''b''], [''c'']]) ([], ())
            = (r, (zip [[CHR ''a'', CHR 0x0A, CHR 0x0A, CHR ''-'', CHR ''-'', CHR ''-'',
                         CHR 0x0A, CHR 0x0A, CHR ''b''], ''c''] outcomes, s'))
       \<and> length outcomes = 2"
    unfolding gs texts by (auto simp del: join_texts.simps)
  show ?thesis by (intro conjI) (rule G ab one ex)+
qed

text \<open>
  C2, as the code has it. For five texts and group size two, with jobs that succeed,
  \<open>hierarchicalReduce\<close> calls the job six times: on the groups \<open>[a, b]\<close>, \<open>[c, d]\<close>, \<open>[e]\<close> of the
  first round, on the groups \<open>[r1, r2]\<close>, \<open>[r3]\<close> of the second round, made of the values of
  the first, and on the two values \<open>[r4, r5]\<close> of the second round at once. It returns the
  value of that sixth call.
\<close>

theorem hierarchicalReduce_five_by_two:
  assumes job: "always_succeeds job"
  shows "\<exists>r1 r2 r3 r4 r5 r6 s'.
     hierarchicalReduce [a, b, c, d, e] (logged job) 2 ([], s) =
       Some (Inr r6,
             ([(join_texts [a, b], Inr r1), (join_texts [c, d], Inr r2), (join_texts [e], Inr r3),
               (join_texts [r1, r2], Inr r4), (join_texts [r3], Inr r5),
               (join_texts [r4, r5], Inr r6)], s'))
     \<and> combine_calls (hierarchicalReduce [a, b, c, d, e] (logged job) 2 ([], s)) = 6"
proof -
  from job obtain r1 s1 where j1: "job (join_texts [a, b]) s = (Inr r1, s1)"
    unfolding always_succeeds_def by blast
  from job obtain r2 s2 where j2: "job (join_texts [c, d]) s1 = (Inr r2, s2)"
    unfolding always_succeeds_def by blast
  from job obtain r3 s3 where j3: "job (join_texts [e]) s2 = (Inr r3, s3)"
    unfolding always_succeeds_def by blast
  from job obtain r4 s4 where j4: "job (join_texts [r1, r2]) s3 = (Inr r4, s4)"
    unfolding always_succeeds_def by blast
  from job obtain r5 s5 where j5: "job (join_texts [r3]) s4 = (Inr r5, s5)"
    unfolding always_succeeds_def by blast
  from job obtain r6 s6 where j6: "job (join_texts [r4, r5]) s5 = (Inr r6, s6)"
    unfolding always_succeeds_def by blast
  let ?log1 = "[(join_texts [a, b], Inr r1), (join_texts [c, d], Inr r2), (join_texts [e], Inr r3)]"
  let ?log2 = "?log1 @ [(join_texts [r1, r2], Inr r4), (join_texts [r3], Inr r5)]"
  have g1: "group_loop [a, b, c, d, e] 2 0 [] = Some [[a, b], [c, d], [e]]"
    by (simp add: group_loop.simps slice_def)
  have g2: "group_loop [r1, r2, r3] 2 0 [] = Some [[r1, r2], [r3]]"
    by (simp add: group_loop.simps slice_def)
  have round1: "promise_all (map (\<lambda>g. logged job (join_texts g)) [[a, b], [c, d], [e]]) ([], s)
                 = (Inr [r1, r2, r3], (?log1, s3))"
    by (simp add: logged_def j1 j2 j3 del: join_texts.simps)
  have round2: "promise_all (map (\<lambda>g. logged job (join_texts g)) [[r1, r2], [r3]]) (?log1, s3)
                 = (Inr [r4, r5], (?log2, s5))"
    by (simp add: logged_def j4 j5 del: join_texts.simps)
  have "hierarchicalReduce [a, b, c, d, e] (logged job) 2 ([], s)
          = hierarchicalReduce [r1, r2, r3] (logged job) 2 (?log1, s3)"
    by (rule hierarchicalReduce_round [OF _ g1 round1]) simp
  also have "\<dots> = hierarchicalReduce [r4, r5] (logged job) 2 (?log2, s5)"
    by (rule hierarchicalReduce_round [OF _ g2 round2]) simp
  also have "\<dots> = Some (Inr r6, (?log2 @ [(join_texts [r4, r5], Inr r6)], s6))"
    by (simp add: hierarchicalReduce_base logged_def j6 del: join_texts.simps)
  finally have run: "hierarchicalReduce [a, b, c, d, e] (logged job) 2 ([], s) =
       Some (Inr r6,
             ([(join_texts [a, b], Inr r1), (join_texts [c, d], Inr r2), (join_texts [e], Inr r3),
               (join_texts [r1, r2], Inr r4), (join_texts [r3], Inr r5),
               (join_texts [r4, r5], Inr r6)], s6))"
    by simp
  then have "combine_calls (hierarchicalReduce [a, b, c, d, e] (logged job) 2 ([], s)) = 6"
    by (simp add: combine_calls_def)
  with run show ?thesis by blast
qed

text \<open>The job that answers \<open>S\<close> to every text never fails; it is called six times.\<close>

theorem hierarchicalReduce_five_by_two_witness:
  "always_succeeds (\<lambda>t s. (Inr ''S'', s :: unit))
   \<and> combine_calls (hierarchicalReduce [''a'', ''b'', ''c'', ''d'', ''e'']
        (logged (\<lambda>t s. (Inr ''S'', s))) 2 ([], ())) = 6"
proof -
  have ok: "always_succeeds (\<lambda>t s. (Inr ''S'', s :: unit))"
    by (simp add: always_succeeds_def)
  from hierarchicalReduce_five_by_two [OF ok, of "''a''" "''b''" "''c''" "''d''" "''e''" "()"]
  have "combine_calls (hierarchicalReduce [''a'', ''b'', ''c'', ''d'', ''e'']
        (logged (\<lambda>t s. (Inr ''S'', s))) 2 ([], ())) = 6"
    by blast
  with ok show ?thesis by simp
qed

text \<open>
  C2, as the specification has it, says three calls, and a last round on one item. On five
  texts with the job that answers \<open>S\<close>, the run makes six calls; the last one is on two
  items.
\<close>

theorem three_combine_calls_counterexample:
  "hierarchicalReduce [''a'', ''b'', ''c'', ''d'', ''e''] (logged (\<lambda>t s. (Inr ''S'', s))) 2 ([], ())
     = Some (Inr ''S'',
         ([(join_texts [''a'', ''b''], Inr ''S''), (join_texts [''c'', ''d''], Inr ''S''),
           (join_texts [''e''], Inr ''S''),
           (join_texts [''S'', ''S''], Inr ''S''), (join_texts [''S''], Inr ''S''),
           (join_texts [''S'', ''S''], Inr ''S'')], ()))
   \<and> combine_calls (hierarchicalReduce [''a'', ''b'', ''c'', ''d'', ''e'']
        (logged (\<lambda>t s. (Inr ''S'', s))) 2 ([], ())) \<noteq> 3"
  by code_simp

text \<open>
  C1. For every non-empty list and every group size of at least one, \<open>hierarchicalReduce\<close>
  is to return. With group size one, two texts and a job that gives back its text, it
  does not: the call never returns.
\<close>

theorem hierarchicalReduce_group_size_one:
  "hierarchicalReduce [''a'', ''b''] (\<lambda>t s. (Inr t, s)) 1 () = None"
  by (rule hierarchicalReduce_diverges) (simp_all add: always_succeeds_def)

section \<open>Messages and the marker of a budget timeout\<close>

text \<open>
  The \<open>catch\<close> of a round tells a budget timeout from any other error by the text
  \<open>Token budget timeout\<close> in the message. The message of the timeout starts with it; the
  messages of the estimate check and of the empty response have no letter \<open>b\<close>.
\<close>

lemma str_includes_start: "str_includes (pat @ rest) pat"
proof (cases "pat @ rest")
  case Nil
  then show ?thesis by simp
next
  case (Cons c cs)
  have "take (length pat) (pat @ rest) = pat" by simp
  then have "take (length pat) (c # cs) = pat" by (simp only: Cons)
  then show ?thesis by (simp only: Cons str_includes.simps) simp
qed

lemma str_includes_set: "str_includes s pat \<Longrightarrow> set pat \<subseteq> set s"
proof (induction s)
  case Nil
  then show ?case by simp
next
  case (Cons c cs)
  from Cons.prems have "take (length pat) (c # cs) = pat \<or> str_includes cs pat" by simp
  then show ?case
  proof
    assume "take (length pat) (c # cs) = pat"
    then have "set pat = set (take (length pat) (c # cs))" by simp
    also have "\<dots> \<subseteq> set (c # cs)" by (rule set_take_subset)
    finally show ?thesis .
  next
    assume "str_includes cs pat"
    with Cons.IH show ?thesis by auto
  qed
qed

lemma digit_char_not_b: "d < 10 \<Longrightarrow> digit_char d \<noteq> CHR ''b''"
proof
  assume d: "d < 10" and b: "digit_char d = CHR ''b''"
  from d have "''0123456789'' ! d \<in> set ''0123456789''" by (intro nth_mem) simp
  with b show False by (simp add: digit_char_def)
qed

lemma show_nat_no_b: "CHR ''b'' \<notin> set (show_nat n)"
proof (induction n rule: show_nat.induct)
  case (1 n)
  show ?case
  proof (cases "n < 10")
    case True
    with digit_char_not_b [of n] show ?thesis
      by (subst show_nat.simps) auto
  next
    case False
    have "n mod 10 < 10" by simp
    from digit_char_not_b [OF this] 1 [OF False] False show ?thesis
      by (subst show_nat.simps) auto
  qed
qed

lemma show_int_no_b: "CHR ''b'' \<notin> set (show_int i)"
  by (simp add: show_int_def show_nat_no_b)

lemma estimate_message_no_marker:
  "\<not> str_includes (estimate_message e t) ''Token budget timeout''"
proof
  assume "str_includes (estimate_message e t) ''Token budget timeout''"
  from str_includes_set [OF this] have "CHR ''b'' \<in> set (estimate_message e t)" by auto
  then show False by (simp add: estimate_message_def show_int_no_b)
qed

lemma empty_response_message_no_marker:
  "\<not> str_includes (empty_response_message d) ''Token budget timeout''"
proof
  assume "str_includes (empty_response_message d) ''Token budget timeout''"
  from str_includes_set [OF this] have "CHR ''b'' \<in> set (empty_response_message d)" by auto
  then show False by (simp add: empty_response_message_def show_int_no_b)
qed

lemma timeout_message_marker:
  "str_includes (timeout_message config e r) ''Token budget timeout''"
  unfolding timeout_message_def
  using str_includes_start [of "''Token budget timeout''"] by simp


section \<open>Rounds of the map phase\<close>

lemma wait_for_budget_timeout:
  "wait_for_budget config e start w = (Inl error, w') \<Longrightarrow>
     str_includes (message error) ''Token budget timeout'' \<and> modelState w' = modelState w"
proof (induction config e start w rule: wait_for_budget.induct)
  case (1 config e start w)
  obtain ok t1 where c: "canUseTokens (clock w) e (tokenTracker w) = (ok, t1)"
    by (cases "canUseTokens (clock w) e (tokenTracker w)")
  obtain remaining t2 where r: "getRemainingTokens (clock w) t1 = (remaining, t2)"
    by (cases "getRemainingTokens (clock w) t1")
  show ?case
  proof (cases ok)
    case True
    with "1.prems" c show ?thesis by (subst (asm) wait_for_budget.simps) simp
  next
    case False
    show ?thesis
    proof (cases "clock w - start > TOKEN_BUDGET_TIMEOUT config")
      case True
      with "1.prems" c r False
      have "error = new_Error (timeout_message config e remaining)"
        and "w' = w\<lparr>tokenTracker := t2\<rparr>"
        by (subst (asm) wait_for_budget.simps, simp)+
      then show ?thesis by (simp add: new_Error_def timeout_message_marker)
    next
      case late: False
      with "1.prems" c r False
      have "wait_for_budget config e start (sleep_ms 3000 (w\<lparr>tokenTracker := t2\<rparr>))
              = (Inl error, w')"
        by (subst (asm) wait_for_budget.simps) simp
      from "1.IH" [OF c [symmetric] _ r [symmetric] late this] False
      show ?thesis by (simp add: sleep_ms_def)
    qed
  qed
qed

lemma map_iteration_over_limit:
  assumes "pageContent d \<noteq> []"
    and "mapPrompt_format env (pageContent d) = Inr prompt"
    and "countTokens env prompt + MAP_OUT_MAX config > TOKENS_PER_MINUTE config"
  shows "map_iteration env config d (partials, w) = (None, partials, w)"
  using assms
  by (simp add: map_iteration_def map_attempt_def Let_def new_Error_def
      estimate_message_no_marker)

lemma map_loop_append:
  "map_loop env config (xs @ ys) st =
     (case map_loop env config xs st of
        (Some error, st1) \<Rightarrow> (Some error, st1)
      | (None, st1) \<Rightarrow> map_loop env config ys st1)"
proof (induction xs arbitrary: st)
  case Nil
  show ?case by simp
next
  case (Cons x xs)
  show ?case
    by (cases "map_iteration env config x st") (auto simp: Cons split: option.splits)
qed

lemma map_loop_rethrown:
  "map_loop env config docs st = (Some error, st1) \<Longrightarrow>
     str_includes (message error) ''Token budget timeout''"
proof (induction docs arbitrary: st)
  case Nil
  then show ?case by simp
next
  case (Cons d ds)
  obtain r st2 where it: "map_iteration env config d st = (r, st2)"
    by (cases "map_iteration env config d st")
  show ?case
  proof (cases r)
    case None
    with Cons.prems it have "map_loop env config ds st2 = (Some error, st1)" by simp
    then show ?thesis by (rule Cons.IH)
  next
    case (Some e)
    with Cons.prems it have "e = error" by simp
    with it Some show ?thesis
      by (cases st) (auto simp: map_iteration_def split: if_splits prod.splits sum.splits)
  qed
qed

lemma map_phase_failures:
  assumes "map_phase env config docs w = (Inl e, w1)"
  shows "(\<exists>error :: jserror. e = new_Error (''MAP phase failed: '' @ message error)
            \<and> str_includes (message error) ''Token budget timeout'')
       \<or> e = new_Error ''MAP phase failed: No documents were successfully processed in MAP phase''"
proof -
  obtain r ps w2 where loop: "map_loop env config docs ([], w) = (r, ps, w2)"
    by (cases "map_loop env config docs ([], w)")
  show ?thesis
  proof (cases r)
    case None
    with assms loop show ?thesis by (simp add: map_phase_def split: if_splits)
  next
    case (Some error)
    with loop map_loop_rethrown [of env config docs "([], w)" error "(ps, w2)"]
    have "str_includes (message error) ''Token budget timeout''" by simp
    moreover from assms loop Some
    have "e = new_Error (''MAP phase failed: '' @ message error)"
      by (simp add: map_phase_def)
    ultimately show ?thesis by blast
  qed
qed

lemma map_loop_skip_inside:
  assumes "\<And>st. map_iteration env config d st = (None, st)"
  shows "map_loop env config (before @ d # rest) st = map_loop env config (before @ rest) st"
  by (simp add: map_loop_append assms split: prod.splits option.splits)

text \<open>
  C3, as the code has it. A segment whose estimate, the tokens of its prompt plus the cap
  on the output of a map call, exceeds \<open>TOKENS_PER_MINUTE\<close> is skipped. The attempt throws
  the error about the estimate in the world as it is: no call of the model is made and
  nothing is waited for. The message does not carry the marker of a budget timeout, so the
  handler of the round catches the error, the partial results stay as they are, and the
  loop goes on. Wherever the segment stands among the others, the loop and the run are
  those without it; when it is the only segment, the run fails with the error that no
  document was processed. No map phase fails with the error about the estimate: the
  error of a failed map phase is a budget timeout, or it says that no document was
  processed.
\<close>

theorem estimate_over_limit_skips:
  assumes "pageContent d \<noteq> []"
    and "mapPrompt_format env (pageContent d) = Inr prompt"
    and "countTokens env prompt + MAP_OUT_MAX config > TOKENS_PER_MINUTE config"
  shows "map_attempt env config d w
           = (Inl (new_Error (estimate_message (countTokens env prompt + MAP_OUT_MAX config)
                     (TOKENS_PER_MINUTE config))), w)
       \<and> \<not> str_includes (estimate_message (countTokens env prompt + MAP_OUT_MAX config)
                (TOKENS_PER_MINUTE config)) ''Token budget timeout''
       \<and> map_iteration env config d (partials, w) = (None, partials, w)
       \<and> map_loop env config (d # ds) (partials, w) = map_loop env config ds (partials, w)
       \<and> map_loop env config (before @ d # rest) st = map_loop env config (before @ rest) st
       \<and> (before @ rest \<noteq> [] \<longrightarrow>
            summarizeWithQueue env config reduceJob (before @ d # rest) w0
              = summarizeWithQueue env config reduceJob (before @ rest) w0)
       \<and> summarizeWithQueue env config reduceJob [d] w0
           = Some (Inl (new_Error
               ''MAP phase failed: No documents were successfully processed in MAP phase''),
               makeQueue config w0)
       \<and> (\<forall>docs w' e w1. map_phase env config docs w' = (Inl e, w1) \<longrightarrow>
             (\<exists>error :: jserror. e = new_Error (''MAP phase failed: '' @ message error)
                  \<and> str_includes (message error) ''Token budget timeout'')
           \<or> e = new_Error
                 ''MAP phase failed: No documents were successfully processed in MAP phase'')"
proof -
  have attempt: "map_attempt env config d w
           = (Inl (new_Error (estimate_message (countTokens env prompt + MAP_OUT_MAX config)
                     (TOKENS_PER_MINUTE config))), w)"
    using assms by (simp add: map_attempt_def Let_def)
  note unmarked = estimate_message_no_marker
      [of "countTokens env prompt + MAP_OUT_MAX config" "TOKENS_PER_MINUTE config"]
  have it: "\<And>st. map_iteration env config d st = (None, st)"
  proof -
    fix st :: "string list \<times> 'a world"
    obtain ps w' where st: "st = (ps, w')" by (cases st)
    show "map_iteration env config d st = (None, st)"
      unfolding st by (rule map_iteration_over_limit [OF assms])
  qed
  note inside = map_loop_skip_inside [of env config d before rest st, OF it]
  have phase: "\<And>w'. map_phase env config (before @ d # rest) w'
                  = map_phase env config (before @ rest) w'"
    by (simp add: map_phase_def map_loop_skip_inside [of env config d, OF it]
        del: map_loop.simps)
  have run: "before @ rest \<noteq> [] \<longrightarrow>
            summarizeWithQueue env config reduceJob (before @ d # rest) w0
              = summarizeWithQueue env config reduceJob (before @ rest) w0"
    by (simp add: summarizeWithQueue_def phase)
  have alone: "summarizeWithQueue env config reduceJob [d] w0
           = Some (Inl (new_Error
               ''MAP phase failed: No documents were successfully processed in MAP phase''),
               makeQueue config w0)"
    by (simp add: summarizeWithQueue_def map_phase_def it)
  have failures: "\<forall>docs w' e w1. map_phase env config docs w' = (Inl e, w1) \<longrightarrow>
             (\<exists>error :: jserror. e = new_Error (''MAP phase failed: '' @ message error)
                  \<and> str_includes (message error) ''Token budget timeout'')
           \<or> e = new_Error
                 ''MAP phase failed: No documents were successfully processed in MAP phase''"
    using map_phase_failures by blast
  from attempt unmarked it [of "(partials, w)"] inside run alone failures
  show ?thesis by (intro conjI) simp_all
qed


lemma map_iteration_timeout:
  assumes nonempty: "pageContent d \<noteq> []"
    and prompt: "mapPrompt_format env (pageContent d) = Inr prompt"
    and fits: "countTokens env prompt + MAP_OUT_MAX config \<le> TOKENS_PER_MINUTE config"
    and timeout: "wait_for_budget config (countTokens env prompt + MAP_OUT_MAX config)
                    (clock w1) w1 = (Inl error, w2)"
  shows "map_iteration env config d (partials, w1) = (Some error, partials, w2)"
  using nonempty prompt fits timeout wait_for_budget_timeout [OF timeout]
  by (simp add: map_iteration_def map_attempt_def Let_def)

text \<open>
  C8. When the wait for the token budget of a segment runs out of time, the error thrown
  carries the marker, the handler of the round throws it again, the loop ends there
  whatever segments follow, and the run fails with the message of the timeout behind
  \<open>MAP phase failed:\<close>. The world is the one the wait has left: the model is not called
  for this segment or any later one.
\<close>

theorem budget_timeout_aborts:
  assumes before: "map_loop env config before ([], makeQueue config w0) = (None, partials, w1)"
    and nonempty: "pageContent d \<noteq> []"
    and prompt: "mapPrompt_format env (pageContent d) = Inr prompt"
    and fits: "countTokens env prompt + MAP_OUT_MAX config \<le> TOKENS_PER_MINUTE config"
    and timeout: "wait_for_budget config (countTokens env prompt + MAP_OUT_MAX config)
                    (clock w1) w1 = (Inl error, w2)"
  shows "str_includes (message error) ''Token budget timeout''
     \<and> map_iteration env config d (partials, w1) = (Some error, partials, w2)
     \<and> map_loop env config (before @ d # rest) ([], makeQueue config w0)
          = (Some error, partials, w2)
     \<and> summarizeWithQueue env config reduceJob (before @ d # rest) w0
          = Some (Inl (new_Error (''MAP phase failed: '' @ message error)), w2)
     \<and> modelState w2 = modelState w1"
proof -
  note it = map_iteration_timeout [OF nonempty prompt fits timeout, of partials]
  have loop: "map_loop env config (before @ d # rest) ([], makeQueue config w0)
          = (Some error, partials, w2)"
    by (simp add: map_loop_append before it)
  have run: "summarizeWithQueue env config reduceJob (before @ d # rest) w0
          = Some (Inl (new_Error (''MAP phase failed: '' @ message error)), w2)"
    by (simp add: summarizeWithQueue_def map_phase_def loop)
  from wait_for_budget_timeout [OF timeout] it loop run show ?thesis by blast
qed



section \<open>The small run, evaluated\<close>

lemmas demo_eval =
  map_iteration_def map_attempt_def Let_def demo_doc_def demo_env_def demo_cfg_def
  demo_world_def new_TokenBudgetTracker_def wait_for_budget.simps canUseTokens_def
  getRemainingTokens_def resetIfNeeded_def withRetry_def pRetry.simps map_call_def
  usedTokensFromMessage_def trim_def is_space_def useTokens_def sleep_ms_def
  onFailedAttempt_def backoff_def maxRetries_default_def new_Error_def timeout_message_def
  estimate_message_def empty_response_message_def show_thousandths_def show_int_def
  show_nat.simps digit_char_def makeQueue_def

lemma demo_big:
  "pageContent (demo_doc ''big'' 0) \<noteq> []"
  "mapPrompt_format demo_env (pageContent (demo_doc ''big'' 0)) = Inr ''big''"
  "countTokens demo_env ''big'' + MAP_OUT_MAX demo_cfg > TOKENS_PER_MINUTE demo_cfg"
  by (simp_all add: demo_doc_def demo_env_def demo_cfg_def)

lemma demo_run_small:
  "map_loop demo_env demo_cfg [demo_doc ''small'' 1] ([], demo_world)
     = (None, [''small!''],
        \<lparr>clock = 0,
         tokenTracker = \<lparr>usedTokens = 200, windowStart = 0, windowMs = 60000,
                          tokensPerMinute = 1000\<rparr>,
         modelState = 1\<rparr>)"
  by (simp add: demo_eval)

lemma demo_run_big_small:
  "map_loop demo_env demo_cfg [demo_doc ''big'' 0, demo_doc ''small'' 1] ([], demo_world)
     = (None, [''small!''],
        \<lparr>clock = 0,
         tokenTracker = \<lparr>usedTokens = 200, windowStart = 0, windowMs = 60000,
                          tokensPerMinute = 1000\<rparr>,
         modelState = 1\<rparr>)"
  by (simp add: demo_eval)

lemma demo_run_big:
  "map_loop demo_env demo_cfg [demo_doc ''big'' 0] ([], demo_world) = (None, [], demo_world)"
  by (simp add: demo_eval)

lemma demo_run_wide:
  "map_loop demo_env demo_cfg [demo_doc ''wide'' 0] ([], makeQueue demo_cfg demo_world)
     = (None, [''wide!''],
        \<lparr>clock = 0,
         tokenTracker = \<lparr>usedTokens = 800, windowStart = 0, windowMs = 60000,
                          tokensPerMinute = 1000\<rparr>,
         modelState = 1\<rparr>)"
  by (simp add: demo_eval)

lemma demo_timeout:
  "wait_for_budget demo_cfg (countTokens demo_env ''wide'' + MAP_OUT_MAX demo_cfg) 0
      \<lparr>clock = 0,
       tokenTracker = \<lparr>usedTokens = 800, windowStart = 0, windowMs = 60000,
                        tokensPerMinute = 1000\<rparr>,
       modelState = Suc 0\<rparr>
    = (Inl (new_Error ''Token budget timeout after 1 seconds: need 800, have 200''),
       \<lparr>clock = 3000,
        tokenTracker = \<lparr>usedTokens = 800, windowStart = 0, windowMs = 60000,
                         tokensPerMinute = 1000\<rparr>,
        modelState = Suc 0\<rparr>)"
  by (simp add: demo_eval)

lemma demo_run_one_down_three:
  "map_loop demo_env demo_cfg
      [demo_doc ''one'' 0, demo_doc ''down'' 1, demo_doc ''three'' 2]
      ([], makeQueue demo_cfg demo_world)
     = (None, [''one!'', ''three!''],
        \<lparr>clock = 47750,
         tokenTracker = \<lparr>usedTokens = 400, windowStart = 0, windowMs = 60000,
                          tokensPerMinute = 1000\<rparr>,
         modelState = 9\<rparr>)"
  by (simp add: demo_eval)

lemma demo_run_down:
  "map_loop demo_env demo_cfg [demo_doc ''down'' 0] ([], makeQueue demo_cfg demo_world)
     = (None, [],
        \<lparr>clock = 47750,
         tokenTracker = \<lparr>usedTokens = 0, windowStart = 0, windowMs = 60000,
                          tokensPerMinute = 1000\<rparr>,
         modelState = 7\<rparr>)"
  by (simp add: demo_eval)


text \<open>
  The text \<open>big\<close> is estimated at 1500 tokens against a limit of 1000: it is skipped, and
  the segment after it is summarised. As the only segment, it leaves the run without a
  partial result.
\<close>

theorem estimate_over_limit_skips_witness:
  "pageContent (demo_doc ''big'' 0) \<noteq> []
   \<and> mapPrompt_format demo_env (pageContent (demo_doc ''big'' 0)) = Inr ''big''
   \<and> countTokens demo_env ''big'' + MAP_OUT_MAX demo_cfg > TOKENS_PER_MINUTE demo_cfg
   \<and> map_attempt demo_env demo_cfg (demo_doc ''big'' 0) demo_world
       = (Inl (new_Error ''MAP operation token estimate (1500) exceeds TPM limit (1000)''),
          demo_world)
   \<and> map_loop demo_env demo_cfg [demo_doc ''big'' 0, demo_doc ''small'' 1] ([], demo_world)
       = (None, [''small!''],
          \<lparr>clock = 0,
           tokenTracker = \<lparr>usedTokens = 200, windowStart = 0, windowMs = 60000,
                            tokensPerMinute = 1000\<rparr>,
           modelState = 1\<rparr>)
   \<and> summarizeWithQueue demo_env demo_cfg (\<lambda>t w. (Inr t, w)) [demo_doc ''big'' 0] demo_world
       = Some (Inl (new_Error
            ''MAP phase failed: No documents were successfully processed in MAP phase''),
            demo_world)"
proof -
  note T = estimate_over_limit_skips [OF demo_big]
  have est: "estimate_message (countTokens demo_env ''big'' + MAP_OUT_MAX demo_cfg)
                (TOKENS_PER_MINUTE demo_cfg)
               = ''MAP operation token estimate (1500) exceeds TPM limit (1000)''"
    by (simp add: demo_eval)
  have attempt: "map_attempt demo_env demo_cfg (demo_doc ''big'' 0) demo_world
       = (Inl (new_Error ''MAP operation token estimate (1500) exceeds TPM limit (1000)''),
          demo_world)"
    using T [THEN conjunct1, of demo_world] by (simp only: est)
  note skip = T [THEN conjunct2, THEN conjunct2, THEN conjunct2, THEN conjunct1,
      of "[demo_doc ''small'' 1]" "[]" demo_world]
  have loop: "map_loop demo_env demo_cfg [demo_doc ''big'' 0, demo_doc ''small'' 1] ([], demo_world)
       = (None, [''small!''],
          \<lparr>clock = 0,
           tokenTracker = \<lparr>usedTokens = 200, windowStart = 0, windowMs = 60000,
                            tokensPerMinute = 1000\<rparr>,
           modelState = 1\<rparr>)"
    by (simp only: skip demo_run_small)
  have q: "makeQueue demo_cfg demo_world = demo_world"
    by (simp add: makeQueue_def demo_world_def)
  have alone: "summarizeWithQueue demo_env demo_cfg (\<lambda>t w. (Inr t, w)) [demo_doc ''big'' 0]
         demo_world
       = Some (Inl (new_Error
            ''MAP phase failed: No documents were successfully processed in MAP phase''),
            demo_world)"
    using T [THEN conjunct2, THEN conjunct2, THEN conjunct2, THEN conjunct2, THEN conjunct2,
        THEN conjunct2, THEN conjunct1, of "\<lambda>t w. (Inr t, w)" demo_world]
    by (simp only: q)
  from demo_big attempt loop alone show ?thesis by blast
qed

text \<open>
  C3, as the specification has it, says that the run fails at once with an error about the
  estimate. With the segments \<open>big\<close> and \<open>small\<close> the run succeeds, on the summary of \<open>small\<close>
  alone; with \<open>big\<close> as the only segment it fails, with the error that no document was
  processed.
\<close>

theorem estimate_over_limit_counterexample:
  "summarizeWithQueue demo_env demo_cfg (\<lambda>t w. (Inr t, w))
       [demo_doc ''big'' 0, demo_doc ''small'' 1] demo_world
     = Some (Inr ''small!'',
          \<lparr>clock = 0,
           tokenTracker = \<lparr>usedTokens = 200, windowStart = 0, windowMs = 60000,
                            tokensPerMinute = 1000\<rparr>,
           modelState = 1\<rparr>)
   \<and> summarizeWithQueue demo_env demo_cfg (\<lambda>t w. (Inr t, w)) [demo_doc ''big'' 0] demo_world
     = Some (Inl (new_Error
          ''MAP phase failed: No documents were successfully processed in MAP phase''),
          demo_world)"
proof -
  have q: "makeQueue demo_cfg demo_world = demo_world"
    by (simp add: makeQueue_def demo_world_def)
  have reduce: "\<And>w. reduce_phase demo_cfg (\<lambda>t w. (Inr t, w)) [''small!''] w
                  = Some (Inr ''small!'', w)"
    by (simp add: reduce_phase_def demo_cfg_def hierarchicalReduce_base trim_def is_space_def)
  show ?thesis
    by (simp add: summarizeWithQueue_def q map_phase_def demo_run_big_small demo_run_big reduce
        del: map_loop.simps)
qed

text \<open>
  Two segments of 800 tokens each against 1000 per minute and a timeout of one second:
  the wait for the second runs out, and the third segment is never looked at.
\<close>

theorem budget_timeout_aborts_witness:
  "map_loop demo_env demo_cfg [demo_doc ''wide'' 0] ([], makeQueue demo_cfg demo_world)
     = (None, [''wide!''],
        \<lparr>clock = 0,
         tokenTracker = \<lparr>usedTokens = 800, windowStart = 0, windowMs = 60000,
                          tokensPerMinute = 1000\<rparr>,
         modelState = 1\<rparr>)
   \<and> summarizeWithQueue demo_env demo_cfg (\<lambda>t w. (Inr t, w))
        ([demo_doc ''wide'' 0] @ demo_doc ''wide'' 1 # [demo_doc ''three'' 2]) demo_world
     = Some (Inl (new_Error
          ''MAP phase failed: Token budget timeout after 1 seconds: need 800, have 200''),
        \<lparr>clock = 3000,
         tokenTracker = \<lparr>usedTokens = 800, windowStart = 0, windowMs = 60000,
                          tokensPerMinute = 1000\<rparr>,
         modelState = 1\<rparr>)"
proof -
  let ?w1 = "\<lparr>clock = 0,
         tokenTracker = \<lparr>usedTokens = 800, windowStart = 0, windowMs = 60000,
                          tokensPerMinute = 1000\<rparr>,
         modelState = 1\<rparr> :: nat world"
  note before = demo_run_wide
  have nonempty: "pageContent (demo_doc ''wide'' 1) \<noteq> []"
    and prompt: "mapPrompt_format demo_env (pageContent (demo_doc ''wide'' 1)) = Inr ''wide''"
    and fits: "countTokens demo_env ''wide'' + MAP_OUT_MAX demo_cfg \<le> TOKENS_PER_MINUTE demo_cfg"
    by (simp_all add: demo_doc_def demo_env_def demo_cfg_def)
  have timeout: "wait_for_budget demo_cfg (countTokens demo_env ''wide'' + MAP_OUT_MAX demo_cfg)
      (clock ?w1) ?w1
    = (Inl (new_Error ''Token budget timeout after 1 seconds: need 800, have 200''),
       \<lparr>clock = 3000,
        tokenTracker = \<lparr>usedTokens = 800, windowStart = 0, windowMs = 60000,
                         tokensPerMinute = 1000\<rparr>,
        modelState = 1\<rparr>)"
    using demo_timeout by simp
  note T = budget_timeout_aborts [OF before nonempty prompt fits timeout,
      where reduceJob = "\<lambda>t w. (Inr t, w)" and rest = "[demo_doc ''three'' 2]"]
  from T have "summarizeWithQueue demo_env demo_cfg (\<lambda>t w. (Inr t, w))
        ([demo_doc ''wide'' 0] @ demo_doc ''wide'' 1 # [demo_doc ''three'' 2]) demo_world
     = Some (Inl (new_Error
          ''MAP phase failed: Token budget timeout after 1 seconds: need 800, have 200''),
        \<lparr>clock = 3000,
         tokenTracker = \<lparr>usedTokens = 800, windowStart = 0, windowMs = 60000,
                          tokensPerMinute = 1000\<rparr>,
         modelState = 1\<rparr>)"
    by (simp add: new_Error_def)
  with before show ?thesis by (rule conjI)
qed

section \<open>What the map phase hands to the reduce phase\<close>

lemma map_loop_partials:
  "map_loop env config docs (ps, w) = (None, ps', w') \<Longrightarrow>
     ps' = ps @ successful_outputs env config docs w"
proof (induction docs arbitrary: ps w)
  case Nil
  then show ?case by simp
next
  case (Cons d ds)
  show ?case
  proof (cases "pageContent d = []")
    case True
    with Cons.prems have "map_loop env config ds (ps, w) = (None, ps', w')"
      by (simp add: map_iteration_def)
    from Cons.IH [OF this] True show ?thesis by simp
  next
    case False
    obtain r w1 where a: "map_attempt env config d w = (r, w1)"
      by (cases "map_attempt env config d w")
    show ?thesis
    proof (cases r)
      case (Inl error)
      with Cons.prems False a have "map_loop env config ds (ps, w1) = (None, ps', w')"
        by (simp add: map_iteration_def split: if_splits)
      from Cons.IH [OF this] False a Inl show ?thesis by simp
    next
      case (Inr partial)
      with Cons.prems False a
      have "map_loop env config ds (ps @ (if partial \<noteq> [] then [partial] else []), w1)
              = (None, ps', w')"
        by (simp add: map_iteration_def split: if_splits)
      from Cons.IH [OF this] False a Inr show ?thesis by simp
    qed
  qed
qed

lemma map_call_empty_response:
  assumes "model_invoke env prompt (MAP_OUT_MAX config) (modelState w) = (Inr res, elapsed, m')"
    and "content res = []"
  shows "withRetry (map_call env config d prompt est) sleep_ms maxRetries_default w
     = (Inl (new_Error (empty_response_message d)),
        w\<lparr>clock := clock w + elapsed, modelState := m'\<rparr>)"
proof -
  have call: "map_call env config d prompt est w
     = (Inl (new_Error (empty_response_message d)),
        w\<lparr>clock := clock w + elapsed, modelState := m'\<rparr>)"
    using assms by (simp add: map_call_def)
  show ?thesis
    by (rule withRetry_fatal [where fn = "map_call env config d prompt est" and s = w])
       (simp_all add: new_Error_def call)
qed

lemma map_call_answer:
  assumes "model_invoke env prompt (MAP_OUT_MAX config) (modelState w) = (Inr res, elapsed, m')"
    and "content res \<noteq> []"
  shows "withRetry (map_call env config d prompt est) sleep_ms maxRetries_default w
     = (Inr (trim (content res)),
        w\<lparr>clock := clock w + elapsed, modelState := m',
          tokenTracker := useTokens (clock w + elapsed)
             (case usedTokensFromMessage res of
                None \<Rightarrow> est | Some n \<Rightarrow> if n = 0 then est else n)
             (tokenTracker w)\<rparr>)"
  using assms by (simp add: withRetry_def pRetry.simps map_call_def Let_def)

text \<open>
  C9, as the code has it. What decides on a failed segment is the message of its error.
  Without the marker \<open>Token budget timeout\<close> the segment is skipped: the partial results
  stay as they are and the loop goes on with the segments that follow, in the world the
  attempt has left. With the marker the loop ends there, whoever has thrown the error. An
  empty answer of the model is a failure of the first kind: it is not retried, and its
  error does not carry the marker. Any other answer is a success of the call, with the
  answer trimmed as its value and its tokens counted; when nothing is left of it, the
  segment is skipped too. When no round ends the loop, the partial results are exactly
  the outputs of the segments that succeeded. The map phase fails then if and only if
  there is none, with the error that no document was processed; otherwise the run is the
  reduce phase on these outputs, whatever comes of it.
\<close>

theorem failed_segments_are_skipped:
  assumes no_abort: "fst (map_loop env config docs ([], makeQueue config w0)) = None"
    and some: "docs \<noteq> []"
  shows "(pageContent d \<noteq> [] \<and> map_attempt env config d w = (Inl error, w1)
            \<and> \<not> str_includes (message error) ''Token budget timeout'' \<longrightarrow>
          map_loop env config (d # ds) (partials, w) = map_loop env config ds (partials, w1))
       \<and> (pageContent d \<noteq> [] \<and> map_attempt env config d w = (Inl error, w1)
            \<and> str_includes (message error) ''Token budget timeout'' \<longrightarrow>
          map_loop env config (d # ds) (partials, w) = (Some error, partials, w1))
       \<and> (pageContent d \<noteq> [] \<and> map_attempt env config d w = (Inr [], w1) \<longrightarrow>
          map_loop env config (d # ds) (partials, w) = map_loop env config ds (partials, w1))
       \<and> (model_invoke env prompt (MAP_OUT_MAX config) (modelState w) = (Inr res, elapsed, m')
            \<and> content res = [] \<longrightarrow>
          withRetry (map_call env config d prompt est) sleep_ms maxRetries_default w
            = (Inl (new_Error (empty_response_message d)),
               w\<lparr>clock := clock w + elapsed, modelState := m'\<rparr>)
          \<and> \<not> str_includes (message (new_Error (empty_response_message d)))
                 ''Token budget timeout'')
       \<and> (model_invoke env prompt (MAP_OUT_MAX config) (modelState w) = (Inr res, elapsed, m')
            \<and> content res \<noteq> [] \<longrightarrow>
          withRetry (map_call env config d prompt est) sleep_ms maxRetries_default w
            = (Inr (trim (content res)),
               w\<lparr>clock := clock w + elapsed, modelState := m',
                 tokenTracker := useTokens (clock w + elapsed)
                    (case usedTokensFromMessage res of
                       None \<Rightarrow> est | Some n \<Rightarrow> if n = 0 then est else n)
                    (tokenTracker w)\<rparr>))
       \<and> summarizeWithQueue env config reduceJob docs w0
          = (if successful_outputs env config docs (makeQueue config w0) = []
             then Some (Inl (new_Error
                    ''MAP phase failed: No documents were successfully processed in MAP phase''),
                    snd (snd (map_loop env config docs ([], makeQueue config w0))))
             else reduce_phase config reduceJob
                    (successful_outputs env config docs (makeQueue config w0))
                    (snd (snd (map_loop env config docs ([], makeQueue config w0)))))
       \<and> ((\<exists>e w'. map_phase env config docs (makeQueue config w0) = (Inl e, w'))
            = (successful_outputs env config docs (makeQueue config w0) = []))"
proof -
  obtain ps w' where loop: "map_loop env config docs ([], makeQueue config w0) = (None, ps, w')"
    using no_abort by (cases "map_loop env config docs ([], makeQueue config w0)") auto
  from map_loop_partials [OF loop]
  have ps: "ps = successful_outputs env config docs (makeQueue config w0)" by simp
  have skip: "pageContent d \<noteq> [] \<and> map_attempt env config d w = (Inl error, w1)
            \<and> \<not> str_includes (message error) ''Token budget timeout'' \<longrightarrow>
          map_loop env config (d # ds) (partials, w) = map_loop env config ds (partials, w1)"
    by (simp add: map_iteration_def)
  have abort: "pageContent d \<noteq> [] \<and> map_attempt env config d w = (Inl error, w1)
            \<and> str_includes (message error) ''Token budget timeout'' \<longrightarrow>
          map_loop env config (d # ds) (partials, w) = (Some error, partials, w1)"
    by (simp add: map_iteration_def)
  have blank: "pageContent d \<noteq> [] \<and> map_attempt env config d w = (Inr [], w1) \<longrightarrow>
          map_loop env config (d # ds) (partials, w) = map_loop env config ds (partials, w1)"
    by (simp add: map_iteration_def)
  have mute: "model_invoke env prompt (MAP_OUT_MAX config) (modelState w) = (Inr res, elapsed, m')
            \<and> content res = [] \<longrightarrow>
          withRetry (map_call env config d prompt est) sleep_ms maxRetries_default w
            = (Inl (new_Error (empty_response_message d)),
               w\<lparr>clock := clock w + elapsed, modelState := m'\<rparr>)
          \<and> \<not> str_includes (message (new_Error (empty_response_message d)))
                 ''Token budget timeout''"
    using map_call_empty_response [of env prompt config w res elapsed m' d est]
    by (simp add: new_Error_def empty_response_message_no_marker)
  have answer: "model_invoke env prompt (MAP_OUT_MAX config) (modelState w) = (Inr res, elapsed, m')
            \<and> content res \<noteq> [] \<longrightarrow>
          withRetry (map_call env config d prompt est) sleep_ms maxRetries_default w
            = (Inr (trim (content res)),
               w\<lparr>clock := clock w + elapsed, modelState := m',
                 tokenTracker := useTokens (clock w + elapsed)
                    (case usedTokensFromMessage res of
                       None \<Rightarrow> est | Some n \<Rightarrow> if n = 0 then est else n)
                    (tokenTracker w)\<rparr>)"
    using map_call_answer [of env prompt config w res elapsed m' d est] by blast
  have run: "summarizeWithQueue env config reduceJob docs w0
          = (if successful_outputs env config docs (makeQueue config w0) = []
             then Some (Inl (new_Error
                    ''MAP phase failed: No documents were successfully processed in MAP phase''),
                    snd (snd (map_loop env config docs ([], makeQueue config w0))))
             else reduce_phase config reduceJob
                    (successful_outputs env config docs (makeQueue config w0))
                    (snd (snd (map_loop env config docs ([], makeQueue config w0)))))"
    using some by (simp add: summarizeWithQueue_def map_phase_def loop ps [symmetric])
  have fails: "(\<exists>e w'. map_phase env config docs (makeQueue config w0) = (Inl e, w'))
            = (successful_outputs env config docs (makeQueue config w0) = [])"
    by (simp add: map_phase_def loop ps [symmetric])
  from skip abort blank mute answer run fails show ?thesis by (intro conjI)
qed

lemmas reduce_eval =
  summarizeWithQueue_def map_phase_def reduce_phase_def hierarchicalReduce_base reduce_job_def
  reduce_call_def reduce_estimate_message_def separator_def

lemma demo_run_four:
  "map_loop demo_env demo_cfg
      [demo_doc ''one'' 0, demo_doc ''blank'' 1, demo_doc ''down'' 2, demo_doc ''three'' 3]
      ([], makeQueue demo_cfg demo_world)
     = (None, [''one!'', ''three!''],
        \<lparr>clock = 47750,
         tokenTracker = \<lparr>usedTokens = 600, windowStart = 0, windowMs = 60000,
                          tokensPerMinute = 1000\<rparr>,
         modelState = 10\<rparr>)"
  by (simp add: demo_eval)

lemma demo_reduce_two:
  "reduce_phase demo_cfg (reduce_job Inr demo_env demo_cfg) [''one!'', ''three!'']
      \<lparr>clock = 47750,
       tokenTracker = \<lparr>usedTokens = 600, windowStart = 0, windowMs = 60000,
                        tokensPerMinute = 1000\<rparr>,
       modelState = 10\<rparr>
   = Some (Inr (join_texts [''one!'', ''three!''] @ ''!''),
        \<lparr>clock = 47750,
         tokenTracker = \<lparr>usedTokens = 800, windowStart = 0, windowMs = 60000,
                          tokensPerMinute = 1000\<rparr>,
         modelState = 11\<rparr>)"
  by (simp add: reduce_eval demo_eval)

text \<open>
  Four segments. The answer to the second is white space only, the third always gets
  status 503 and is given up after seven calls of a quarter of a second each: both are
  skipped, and the run reduces the two other summaries in one call. A segment that the
  provider refuses with a message that has the marker in it ends the loop. With the third
  segment as the only one, nothing is left to reduce, and the run fails.
\<close>

theorem failed_segments_are_skipped_witness:
  "fst (map_loop demo_env demo_cfg
          [demo_doc ''one'' 0, demo_doc ''blank'' 1, demo_doc ''down'' 2, demo_doc ''three'' 3]
          ([], makeQueue demo_cfg demo_world)) = None
   \<and> withRetry (map_call demo_env demo_cfg (demo_doc ''blank'' 1) ''blank'' 200) sleep_ms
        maxRetries_default
        \<lparr>clock = 0,
         tokenTracker = \<lparr>usedTokens = 200, windowStart = 0, windowMs = 60000,
                          tokensPerMinute = 1000\<rparr>,
         modelState = 1\<rparr>
      = (Inr [],
         \<lparr>clock = 0,
          tokenTracker = \<lparr>usedTokens = 400, windowStart = 0, windowMs = 60000,
                           tokensPerMinute = 1000\<rparr>,
          modelState = 2\<rparr>)
   \<and> map_attempt demo_env demo_cfg (demo_doc ''down'' 2)
        \<lparr>clock = 0,
         tokenTracker = \<lparr>usedTokens = 400, windowStart = 0, windowMs = 60000,
                          tokensPerMinute = 1000\<rparr>,
         modelState = 2\<rparr>
      = (Inl \<lparr>message = ''Service Unavailable'', status = Some 503, retryAfter = None\<rparr>,
         \<lparr>clock = 47750,
          tokenTracker = \<lparr>usedTokens = 400, windowStart = 0, windowMs = 60000,
                           tokensPerMinute = 1000\<rparr>,
          modelState = 9\<rparr>)
   \<and> map_loop demo_env demo_cfg [demo_doc ''down'' 2, demo_doc ''three'' 3]
        ([''one!''],
         \<lparr>clock = 0,
          tokenTracker = \<lparr>usedTokens = 400, windowStart = 0, windowMs = 60000,
                           tokensPerMinute = 1000\<rparr>,
          modelState = 2\<rparr>)
      = map_loop demo_env demo_cfg [demo_doc ''three'' 3]
        ([''one!''],
         \<lparr>clock = 47750,
          tokenTracker = \<lparr>usedTokens = 400, windowStart = 0, windowMs = 60000,
                           tokensPerMinute = 1000\<rparr>,
          modelState = 9\<rparr>)
   \<and> map_loop demo_env demo_cfg [demo_doc ''deny'' 4, demo_doc ''three'' 3]
        ([''one!''],
         \<lparr>clock = 0,
          tokenTracker = \<lparr>usedTokens = 400, windowStart = 0, windowMs = 60000,
                           tokensPerMinute = 1000\<rparr>,
          modelState = 2\<rparr>)
      = (Some \<lparr>message = ''Token budget timeout at the provider'', status = Some 400,
                retryAfter = None\<rparr>,
         [''one!''],
         \<lparr>clock = 0,
          tokenTracker = \<lparr>usedTokens = 400, windowStart = 0, windowMs = 60000,
                           tokensPerMinute = 1000\<rparr>,
          modelState = 3\<rparr>)
   \<and> summarizeWithQueue demo_env demo_cfg (reduce_job Inr demo_env demo_cfg)
        [demo_doc ''one'' 0, demo_doc ''blank'' 1, demo_doc ''down'' 2, demo_doc ''three'' 3]
        demo_world
      = Some (Inr (join_texts [''one!'', ''three!''] @ ''!''),
          \<lparr>clock = 47750,
           tokenTracker = \<lparr>usedTokens = 800, windowStart = 0, windowMs = 60000,
                            tokensPerMinute = 1000\<rparr>,
           modelState = 11\<rparr>)
   \<and> summarizeWithQueue demo_env demo_cfg (reduce_job Inr demo_env demo_cfg)
        [demo_doc ''down'' 0] demo_world
      = Some (Inl (new_Error
            ''MAP phase failed: No documents were successfully processed in MAP phase''),
          \<lparr>clock = 47750,
           tokenTracker = \<lparr>usedTokens = 0, windowStart = 0, windowMs = 60000,
                            tokensPerMinute = 1000\<rparr>,
           modelState = 7\<rparr>)"
proof -
  let ?docs = "[demo_doc ''one'' 0, demo_doc ''blank'' 1, demo_doc ''down'' 2, demo_doc ''three'' 3]"
  let ?job = "reduce_job Inr demo_env demo_cfg"
  let ?e = "\<lparr>message = ''Service Unavailable'', status = Some 503, retryAfter = None\<rparr>"
  let ?deny = "\<lparr>message = ''Token budget timeout at the provider'', status = Some 400,
                retryAfter = None\<rparr>"
  let ?w1 = "\<lparr>clock = 0,
         tokenTracker = \<lparr>usedTokens = 200, windowStart = 0, windowMs = 60000,
                          tokensPerMinute = 1000\<rparr>,
         modelState = 1\<rparr> :: nat world"
  let ?w2 = "\<lparr>clock = 0,
         tokenTracker = \<lparr>usedTokens = 400, windowStart = 0, windowMs = 60000,
                          tokensPerMinute = 1000\<rparr>,
         modelState = 2\<rparr> :: nat world"
  let ?w3 = "\<lparr>clock = 47750,
          tokenTracker = \<lparr>usedTokens = 400, windowStart = 0, windowMs = 60000,
                           tokensPerMinute = 1000\<rparr>,
          modelState = 9\<rparr> :: nat world"
  let ?w4 = "\<lparr>clock = 0,
          tokenTracker = \<lparr>usedTokens = 400, windowStart = 0, windowMs = 60000,
                           tokensPerMinute = 1000\<rparr>,
          modelState = 3\<rparr> :: nat world"
  have no_abort: "fst (map_loop demo_env demo_cfg ?docs ([], makeQueue demo_cfg demo_world)) = None"
    by (simp only: demo_run_four fst_conv)
  have some: "?docs \<noteq> []" by simp
  note T = failed_segments_are_skipped [OF no_abort some, where reduceJob = ?job]
  have answered: "model_invoke demo_env ''blank'' (MAP_OUT_MAX demo_cfg) (modelState ?w1)
          = (Inr \<lparr>content = ''  '', usage_metadata = None\<rparr>, 0, 2)
       \<and> content \<lparr>content = ''  '', usage_metadata = None\<rparr> \<noteq> []"
    by (simp add: demo_env_def)
  have blank: "withRetry (map_call demo_env demo_cfg (demo_doc ''blank'' 1) ''blank'' 200) sleep_ms
        maxRetries_default ?w1 = (Inr [], ?w2)"
    using T [THEN conjunct2, THEN conjunct2, THEN conjunct2, THEN conjunct2, THEN conjunct1,
        THEN mp, OF answered, of "demo_doc ''blank'' 1" 200]
    by (simp add: trim_def is_space_def usedTokensFromMessage_def useTokens_def
        resetIfNeeded_def)
  have down: "map_attempt demo_env demo_cfg (demo_doc ''down'' 2) ?w2 = (Inl ?e, ?w3)"
    by (simp add: demo_eval)
  have pre: "pageContent (demo_doc ''down'' 2) \<noteq> []
      \<and> map_attempt demo_env demo_cfg (demo_doc ''down'' 2) ?w2 = (Inl ?e, ?w3)
      \<and> \<not> str_includes (message ?e) ''Token budget timeout''"
    using down by (simp add: demo_doc_def)
  note skip = T [THEN conjunct1, THEN mp, OF pre]
  have refused: "map_attempt demo_env demo_cfg (demo_doc ''deny'' 4) ?w2 = (Inl ?deny, ?w4)"
    by (simp add: demo_eval)
  have pre': "pageContent (demo_doc ''deny'' 4) \<noteq> []
      \<and> map_attempt demo_env demo_cfg (demo_doc ''deny'' 4) ?w2 = (Inl ?deny, ?w4)
      \<and> str_includes (message ?deny) ''Token budget timeout''"
    using refused by (simp add: demo_doc_def)
  note abort = T [THEN conjunct2, THEN conjunct1, THEN mp, OF pre']
  note run = T [THEN conjunct2, THEN conjunct2, THEN conjunct2, THEN conjunct2, THEN conjunct2,
      THEN conjunct1]
  have outs: "successful_outputs demo_env demo_cfg ?docs (makeQueue demo_cfg demo_world)
                = [''one!'', ''three!'']"
    by (simp add: demo_eval)
  have final: "summarizeWithQueue demo_env demo_cfg ?job ?docs demo_world
      = Some (Inr (join_texts [''one!'', ''three!''] @ ''!''),
          \<lparr>clock = 47750,
           tokenTracker = \<lparr>usedTokens = 800, windowStart = 0, windowMs = 60000,
                            tokensPerMinute = 1000\<rparr>,
           modelState = 11\<rparr>)"
    by (simp only: run outs demo_run_four demo_reduce_two snd_conv) simp
  have alone: "fst (map_loop demo_env demo_cfg [demo_doc ''down'' 0]
                      ([], makeQueue demo_cfg demo_world)) = None"
    by (simp only: demo_run_down fst_conv)
  have one: "[demo_doc ''down'' 0] \<noteq> []" by simp
  note run1 = failed_segments_are_skipped [OF alone one, where reduceJob = ?job,
      THEN conjunct2, THEN conjunct2, THEN conjunct2, THEN conjunct2, THEN conjunct2,
      THEN conjunct1]
  have none: "successful_outputs demo_env demo_cfg [demo_doc ''down'' 0]
                (makeQueue demo_cfg demo_world) = []"
    by (simp add: demo_eval)
  have failed: "summarizeWithQueue demo_env demo_cfg ?job [demo_doc ''down'' 0] demo_world
      = Some (Inl (new_Error
            ''MAP phase failed: No documents were successfully processed in MAP phase''),
          \<lparr>clock = 47750,
           tokenTracker = \<lparr>usedTokens = 0, windowStart = 0, windowMs = 60000,
                            tokensPerMinute = 1000\<rparr>,
           modelState = 7\<rparr>)"
    by (simp only: run1 none demo_run_down snd_conv) simp
  show ?thesis by (intro conjI) (rule no_abort blank down skip abort final failed)+
qed

text \<open>
  C9, as the specification has it, says that the run fails if and only if no segment
  succeeds, and that a segment whose call fails for good is skipped unless the failure is
  a budget timeout. With an output cap of the reduce phase above the limit, the one
  segment succeeds and the run fails in the reduce phase. And the segment \<open>deny\<close>, refused
  by the provider, is not skipped: the run ends with its error, and the segment after it
  is never sent to the model.
\<close>

theorem failed_segments_counterexample:
  "successful_outputs demo_env demo_cfg_high [demo_doc ''one'' 0]
       (makeQueue demo_cfg_high demo_world) = [''one!'']
   \<and> summarizeWithQueue demo_env demo_cfg_high
        (reduce_job Inr demo_env demo_cfg_high)
        [demo_doc ''one'' 0] demo_world
      = Some (Inl (new_Error (''REDUCE phase failed: REDUCE operation token estimate (2100) ''
                @ ''exceeds TPM limit (1000). Consider reducing REDUCE_OUT_MAX or input size.'')),
          \<lparr>clock = 0,
           tokenTracker = \<lparr>usedTokens = 200, windowStart = 0, windowMs = 60000,
                            tokensPerMinute = 1000\<rparr>,
           modelState = 1\<rparr>)
   \<and> summarizeWithQueue demo_env demo_cfg (reduce_job Inr demo_env demo_cfg)
        [demo_doc ''deny'' 0, demo_doc ''one'' 1] demo_world
      = Some (Inl (new_Error ''MAP phase failed: Token budget timeout at the provider''),
          \<lparr>clock = 0,
           tokenTracker = \<lparr>usedTokens = 0, windowStart = 0, windowMs = 60000,
                            tokensPerMinute = 1000\<rparr>,
           modelState = 1\<rparr>)"
proof -
  have outs: "successful_outputs demo_env demo_cfg_high [demo_doc ''one'' 0]
       (makeQueue demo_cfg_high demo_world) = [''one!'']"
    by (simp add: demo_cfg_high_def demo_eval)
  have reduce: "summarizeWithQueue demo_env demo_cfg_high
        (reduce_job Inr demo_env demo_cfg_high)
        [demo_doc ''one'' 0] demo_world
      = Some (Inl (new_Error (''REDUCE phase failed: REDUCE operation token estimate (2100) ''
                @ ''exceeds TPM limit (1000). Consider reducing REDUCE_OUT_MAX or input size.'')),
          \<lparr>clock = 0,
           tokenTracker = \<lparr>usedTokens = 200, windowStart = 0, windowMs = 60000,
                            tokensPerMinute = 1000\<rparr>,
           modelState = 1\<rparr>)"
    by (simp add: demo_cfg_high_def reduce_eval demo_eval)
  have deny: "summarizeWithQueue demo_env demo_cfg (reduce_job Inr demo_env demo_cfg)
        [demo_doc ''deny'' 0, demo_doc ''one'' 1] demo_world
      = Some (Inl (new_Error ''MAP phase failed: Token budget timeout at the provider''),
          \<lparr>clock = 0,
           tokenTracker = \<lparr>usedTokens = 0, windowStart = 0, windowMs = 60000,
                            tokensPerMinute = 1000\<rparr>,
           modelState = 1\<rparr>)"
    by (simp add: reduce_eval demo_eval)
  from outs reduce deny show ?thesis by (intro conjI)
qed



section \<open>Order of the partial results\<close>

lemma map_iteration_partials:
  "fst (snd (map_iteration env config d (ps, w))) = ps
   \<or> (pageContent d \<noteq> []
      \<and> (\<exists>p. fst (map_attempt env config d w) = Inr p
             \<and> fst (snd (map_iteration env config d (ps, w))) = ps @ [p]))"
  by (cases "map_attempt env config d w")
     (auto simp: map_iteration_def split: sum.splits)

lemma map_loop_snoc:
  "map_loop env config (xs @ [d]) st =
     (case map_loop env config xs st of
        (Some error, st1) \<Rightarrow> (Some error, st1)
      | (None, st1) \<Rightarrow> map_iteration env config d st1)"
  by (simp add: map_loop_append split: prod.splits option.splits)

lemma partials_indexed:
  "\<exists>idx. length idx = length (fst (snd (map_loop env config docs ([], w))))
     \<and> sorted_wrt (<) idx
     \<and> (\<forall>j<length idx. idx ! j < length docs
           \<and> pageContent (docs ! (idx ! j)) \<noteq> []
           \<and> fst (map_attempt env config (docs ! (idx ! j))
                    (world_at env config docs w (idx ! j)))
               = Inr (fst (snd (map_loop env config docs ([], w))) ! j))"
proof (induction docs rule: rev_induct)
  case Nil
  show ?case by simp
next
  case (snoc d xs)
  obtain r1 ps1 w1 where xs: "map_loop env config xs ([], w) = (r1, ps1, w1)"
    by (cases "map_loop env config xs ([], w)")
  from snoc obtain idx where len: "length idx = length ps1"
    and sorted: "sorted_wrt (<) idx"
    and each: "\<forall>j<length idx. idx ! j < length xs
           \<and> pageContent (xs ! (idx ! j)) \<noteq> []
           \<and> fst (map_attempt env config (xs ! (idx ! j)) (world_at env config xs w (idx ! j)))
               = Inr (ps1 ! j)"
    by (auto simp: xs)
  have old: "\<forall>j<length idx. idx ! j < length (xs @ [d])
           \<and> pageContent ((xs @ [d]) ! (idx ! j)) \<noteq> []
           \<and> fst (map_attempt env config ((xs @ [d]) ! (idx ! j))
                    (world_at env config (xs @ [d]) w (idx ! j)))
               = Inr (ps1 ! j)"
    using each by (auto simp: nth_append world_at_def)
  let ?ps = "fst (snd (map_loop env config (xs @ [d]) ([], w)))"
  have "?ps = ps1 \<or> (r1 = None \<and> pageContent d \<noteq> []
          \<and> (\<exists>p. fst (map_attempt env config d w1) = Inr p \<and> ?ps = ps1 @ [p]))"
    using map_iteration_partials [of env config d ps1 w1]
    by (cases r1) (auto simp: map_loop_snoc xs)
  then show ?case
  proof
    assume same: "?ps = ps1"
    from len sorted old show ?thesis
      unfolding same by blast
  next
    assume "r1 = None \<and> pageContent d \<noteq> []
          \<and> (\<exists>p. fst (map_attempt env config d w1) = Inr p \<and> ?ps = ps1 @ [p])"
    then obtain p where nonempty: "pageContent d \<noteq> []"
      and p: "fst (map_attempt env config d w1) = Inr p" and more: "?ps = ps1 @ [p]"
      by blast
    have at: "world_at env config (xs @ [d]) w (length xs) = w1"
      by (simp add: world_at_def xs)
    let ?idx = "idx @ [length xs]"
    have 1: "length ?idx = length (ps1 @ [p])" using len by simp
    have 2: "sorted_wrt (<) ?idx"
      using sorted each by (auto simp: sorted_wrt_append in_set_conv_nth)
    have 3: "\<forall>j<length ?idx. ?idx ! j < length (xs @ [d])
           \<and> pageContent ((xs @ [d]) ! (?idx ! j)) \<noteq> []
           \<and> fst (map_attempt env config ((xs @ [d]) ! (?idx ! j))
                    (world_at env config (xs @ [d]) w (?idx ! j)))
               = Inr ((ps1 @ [p]) ! j)"
    proof (intro allI impI)
      fix j assume j: "j < length ?idx"
      show "?idx ! j < length (xs @ [d])
           \<and> pageContent ((xs @ [d]) ! (?idx ! j)) \<noteq> []
           \<and> fst (map_attempt env config ((xs @ [d]) ! (?idx ! j))
                    (world_at env config (xs @ [d]) w (?idx ! j)))
               = Inr ((ps1 @ [p]) ! j)"
      proof (cases "j < length idx")
        case True
        with old len show ?thesis by (simp add: nth_append)
      next
        case False
        with j have "j = length idx" by simp
        with len nonempty p at show ?thesis by (simp add: nth_append)
      qed
    qed
    from 1 2 3 show ?thesis unfolding more by blast
  qed
qed


lemma wait_for_budget_concurrency:
  "wait_for_budget (config\<lparr>QUEUE_CONCURRENCY := c\<rparr>) e start w
     = wait_for_budget config e start w"
proof (induction config e start w rule: wait_for_budget.induct)
  case (1 config e start w)
  obtain ok t1 where c: "canUseTokens (clock w) e (tokenTracker w) = (ok, t1)"
    by (cases "canUseTokens (clock w) e (tokenTracker w)")
  obtain remaining t2 where r: "getRemainingTokens (clock w) t1 = (remaining, t2)"
    by (cases "getRemainingTokens (clock w) t1")
  show ?case
  proof (cases "\<not> ok \<and> \<not> clock w - start > TOKEN_BUDGET_TIMEOUT config")
    case True
    then have ok: "\<not> ok" and late: "\<not> clock w - start > TOKEN_BUDGET_TIMEOUT config"
      by simp_all
    from "1.IH" [OF c [symmetric] ok r [symmetric] late] c r True show ?thesis
      by (subst (1 2) wait_for_budget.simps) simp
  next
    case False
    with c r show ?thesis
      by (subst (1 2) wait_for_budget.simps) (auto simp: timeout_message_def)
  qed
qed

lemma map_iteration_concurrency:
  "map_iteration env (config\<lparr>QUEUE_CONCURRENCY := c\<rparr>) d st = map_iteration env config d st"
proof -
  have call: "\<And>prompt est. map_call env (config\<lparr>QUEUE_CONCURRENCY := c\<rparr>) d prompt est
                 = map_call env config d prompt est"
    by (rule ext) (simp add: map_call_def)
  have "\<And>w. map_attempt env (config\<lparr>QUEUE_CONCURRENCY := c\<rparr>) d w = map_attempt env config d w"
    by (simp add: map_attempt_def Let_def wait_for_budget_concurrency call
        cong: sum.case_cong prod.case_cong if_cong)
  then show ?thesis by (cases st) (simp add: map_iteration_def)
qed

lemma map_loop_concurrency:
  "map_loop env (config\<lparr>QUEUE_CONCURRENCY := c\<rparr>) docs st = map_loop env config docs st"
  by (induction docs arbitrary: st)
     (simp_all add: map_iteration_concurrency split: prod.splits option.splits)

section \<open>The loop and its queue, step by step\<close>

lemma map_attempt_prepare:
  "map_attempt env config d w =
     (case map_prepare env config d w of
        (Inl error, w1) \<Rightarrow> (Inl error, w1)
      | (Inr (prompt, estWeight), w1) \<Rightarrow>
          withRetry (map_call env config d prompt estWeight) sleep_ms maxRetries_default w1)"
  by (simp add: map_attempt_def map_prepare_def Let_def split: sum.splits prod.splits)

lemma map_loop_take_Suc:
  assumes "i < length docs"
    and "map_loop env config (take i docs) st = (None, st1)"
  shows "map_loop env config (take (Suc i) docs) st = map_iteration env config (docs ! i) st1"
  using assms by (simp add: take_Suc_conv_app_nth map_loop_snoc)

lemma map_loop_abort_at:
  assumes "i < length docs"
    and "map_loop env config (take i docs) st = (None, st1)"
    and "map_iteration env config (docs ! i) st1 = (Some error, st2)"
  shows "map_loop env config docs st = (Some error, st2)"
proof -
  have "docs = take i docs @ docs ! i # drop (Suc i) docs"
    using assms(1) by (rule id_take_nth_drop)
  then have "map_loop env config docs st
      = map_loop env config (take i docs @ docs ! i # drop (Suc i) docs) st" by simp
  also have "\<dots> = (Some error, st2)"
    using assms(2,3) by (simp add: map_loop_append)
  finally show ?thesis .
qed

lemma agrees_start: "agrees env config docs w (loop_start w)"
  by (simp add: agrees_def loop_start_def)

lemma agrees_step:
  assumes a: "agrees env config docs w s"
    and s': "s' \<in> set (successors env config docs s)"
  shows "agrees env config docs w s' \<and> steps_left docs s' < steps_left docs s"
proof (cases "main s")
  case LoopHead
  with a have i: "loop_i s \<le> length docs" and qw: "queue_waiting s = []"
    and qr: "queue_running s = []"
    and loop: "map_loop env config (take (loop_i s) docs) ([], w)
              = (None, partials_now s, loop_world s)"
    by (simp_all add: agrees_def)
  from s' qw qr have in_loop: "s' \<in> set (loop_steps env config docs s)"
    by (simp add: successors_def queue_steps_def)
  show ?thesis
  proof (cases "loop_i s < length docs")
    case False
    with i have "loop_i s = length docs" by simp
    with in_loop LoopHead qw qr loop show ?thesis
      by (simp add: loop_steps_def agrees_def steps_left_def)
  next
    case True
    note step = map_loop_take_Suc [OF True loop]
    show ?thesis
    proof (cases "pageContent (docs ! loop_i s) = []")
      case empty: True
      with in_loop LoopHead True qw qr step show ?thesis
        by (auto simp: loop_steps_def agrees_def steps_left_def map_iteration_def)
    next
      case nonempty: False
      obtain r w1 where p: "map_prepare env config (docs ! loop_i s) (loop_world s) = (r, w1)"
        by (cases "map_prepare env config (docs ! loop_i s) (loop_world s)")
      show ?thesis
      proof (cases r)
        case (Inl error)
        with p have att: "map_attempt env config (docs ! loop_i s) (loop_world s) = (Inl error, w1)"
          by (simp add: map_attempt_prepare)
        show ?thesis
        proof (cases "str_includes (message error) ''Token budget timeout''")
          case marked: True
          with att nonempty
          have "map_iteration env config (docs ! loop_i s) (partials_now s, loop_world s)
                  = (Some error, partials_now s, w1)"
            by (simp add: map_iteration_def)
          from map_loop_abort_at [OF True loop this] in_loop LoopHead True nonempty p Inl marked
            qw qr
          show ?thesis
            by (simp add: loop_steps_def agrees_def steps_left_def catch_round_def)
        next
          case unmarked: False
          with att nonempty
          have "map_iteration env config (docs ! loop_i s) (partials_now s, loop_world s)
                  = (None, partials_now s, w1)"
            by (simp add: map_iteration_def)
          with step in_loop LoopHead True nonempty p Inl unmarked qw qr
          show ?thesis
            by (auto simp: loop_steps_def agrees_def steps_left_def catch_round_def)
        qed
      next
        case (Inr job)
        obtain prompt est where job: "job = (prompt, est)" by (cases job)
        from in_loop LoopHead True nonempty p Inr job qw qr loop
        show ?thesis
          by (auto simp: loop_steps_def agrees_def steps_left_def)
      qed
    qed
  qed
next
  case (Awaiting j)
  with a obtain prompt est wb where j: "j = loop_i s" "j < length docs"
    and nonempty: "pageContent (docs ! j) \<noteq> []"
    and q: "queue_waiting s @ queue_running s = [(j, docs ! j, prompt, est)]"
    and loop: "map_loop env config (take j docs) ([], w) = (None, partials_now s, wb)"
    and p: "map_prepare env config (docs ! j) wb = (Inr (prompt, est), loop_world s)"
    by (auto simp: agrees_def)
  let ?job = "(j, docs ! j, prompt, est)"
  from q have "(queue_waiting s = [?job] \<and> queue_running s = [])
             \<or> (queue_waiting s = [] \<and> queue_running s = [?job])"
    by (cases "queue_waiting s") auto
  then show ?thesis
  proof
    assume w: "queue_waiting s = [?job] \<and> queue_running s = []"
    with s' Awaiting have "s' = s\<lparr>queue_waiting := [], queue_running := [?job]\<rparr>"
      by (auto simp: successors_def loop_steps_def queue_steps_def split: if_splits)
    with Awaiting j nonempty loop p w show ?thesis
      by (auto simp: agrees_def steps_left_def)
  next
    assume r: "queue_waiting s = [] \<and> queue_running s = [?job]"
    with s' Awaiting have s'_eq: "s' = settle env config s ?job"
      by (auto simp: successors_def loop_steps_def queue_steps_def)
    obtain res w1 where run: "withRetry (map_call env config (docs ! j) prompt est) sleep_ms
        maxRetries_default (loop_world s) = (res, w1)"
      by (cases "withRetry (map_call env config (docs ! j) prompt est) sleep_ms
        maxRetries_default (loop_world s)")
    with p have att: "map_attempt env config (docs ! j) wb = (res, w1)"
      by (simp add: map_attempt_prepare)
    note step = map_loop_take_Suc [OF j(2) loop]
    show ?thesis
    proof (cases res)
      case (Inr partial)
      with att nonempty
      have "map_iteration env config (docs ! j) (partials_now s, wb)
              = (None, if partial \<noteq> [] then partials_now s @ [partial] else partials_now s, w1)"
        by (simp add: map_iteration_def)
      with step s'_eq run Inr Awaiting j r show ?thesis
        by (auto simp: settle_def agrees_def steps_left_def)
    next
      case (Inl error)
      show ?thesis
      proof (cases "str_includes (message error) ''Token budget timeout''")
        case marked: True
        with att nonempty Inl
        have "map_iteration env config (docs ! j) (partials_now s, wb)
                = (Some error, partials_now s, w1)"
          by (simp add: map_iteration_def)
        from map_loop_abort_at [OF j(2) loop this] s'_eq run Inl Awaiting j r marked
        show ?thesis
          by (auto simp: settle_def agrees_def steps_left_def catch_round_def)
      next
        case unmarked: False
        with att nonempty Inl
        have "map_iteration env config (docs ! j) (partials_now s, wb)
                = (None, partials_now s, w1)"
          by (simp add: map_iteration_def)
        with step s'_eq run Inl Awaiting j r unmarked show ?thesis
          by (auto simp: settle_def agrees_def steps_left_def catch_round_def)
      qed
    qed
  qed
next
  case (Rethrown error)
  with a s' show ?thesis
    by (simp add: agrees_def successors_def loop_steps_def queue_steps_def)
next
  case LoopDone
  with a s' show ?thesis
    by (simp add: agrees_def successors_def loop_steps_def queue_steps_def)
qed


lemma after_steps_agree:
  "s \<in> set (after_steps env config docs w k) \<Longrightarrow>
     agrees env config docs w s \<and> k + steps_left docs s \<le> 3 * length docs + 1"
proof (induction k arbitrary: s)
  case 0
  then show ?case by (simp add: agrees_start) (simp add: loop_start_def steps_left_def)
next
  case (Suc k)
  from Suc.prems obtain s0 where s0: "s0 \<in> set (after_steps env config docs w k)"
    and s: "s \<in> set (successors env config docs s0)"
    by auto
  from Suc.IH [OF s0] agrees_step [OF _ s] show ?case by fastforce
qed

lemma agrees_queue:
  "agrees env config docs w s \<Longrightarrow> length (queue_waiting s) + length (queue_running s) \<le> 1"
  by (cases "main s") (auto simp: agrees_def dest: arg_cong [where f = length])

lemma agrees_successors:
  assumes a: "agrees env config docs w s"
  shows "length (successors env config docs s) \<le> 1
       \<and> (ended s \<longrightarrow> successors env config docs s = [])
       \<and> (1 \<le> QUEUE_CONCURRENCY config \<and> \<not> ended s \<longrightarrow>
             (\<exists>s'. successors env config docs s = [s']))"
proof (cases "main s")
  case LoopHead
  with a show ?thesis
    by (auto simp: agrees_def successors_def loop_steps_def queue_steps_def ended_def Let_def
        split: prod.splits sum.splits)
next
  case (Awaiting j)
  with a obtain job where q: "queue_waiting s @ queue_running s = [job]"
    by (auto simp: agrees_def)
  then have "(queue_waiting s = [job] \<and> queue_running s = [])
             \<or> (queue_waiting s = [] \<and> queue_running s = [job])"
    by (cases "queue_waiting s") auto
  with Awaiting show ?thesis
    by (auto simp: successors_def loop_steps_def queue_steps_def ended_def)
next
  case (Rethrown error)
  with a show ?thesis
    by (simp add: agrees_def successors_def loop_steps_def queue_steps_def ended_def)
next
  case LoopDone
  with a show ?thesis
    by (simp add: agrees_def successors_def loop_steps_def queue_steps_def ended_def)
qed

lemma after_steps_single:
  assumes c: "1 \<le> QUEUE_CONCURRENCY config"
  shows "(\<exists>s. after_steps env config docs w k = [s])
       \<or> (\<exists>n<k. \<exists>final. after_steps env config docs w n = [final] \<and> ended final)"
proof (induction k)
  case 0
  show ?case by simp
next
  case (Suc k)
  from Suc show ?case
  proof
    assume "\<exists>s. after_steps env config docs w k = [s]"
    then obtain s where s: "after_steps env config docs w k = [s]" ..
    have "s \<in> set (after_steps env config docs w k)" unfolding s by simp
    from after_steps_agree [OF this] have a: "agrees env config docs w s" ..
    show ?thesis
    proof (cases "ended s")
      case True
      with s show ?thesis by blast
    next
      case False
      with agrees_successors [OF a] c obtain s' where "successors env config docs s = [s']"
        by blast
      with s show ?thesis by simp
    qed
  next
    assume "\<exists>n<k. \<exists>final. after_steps env config docs w n = [final] \<and> ended final"
    then show ?thesis using less_Suc_eq by blast
  qed
qed

lemma after_steps_ends:
  assumes c: "1 \<le> QUEUE_CONCURRENCY config"
  shows "\<exists>n \<le> 3 * length docs + 1. \<exists>final.
           after_steps env config docs w n = [final] \<and> ended final
         \<and> map_loop env config docs ([], w)
             = (case main final of Rethrown error \<Rightarrow> Some error | _ \<Rightarrow> None,
                partials_now final, loop_world final)"
proof -
  from after_steps_single [OF c, of env docs w "3 * length docs + 2"]
  show ?thesis
  proof
    assume "\<exists>s. after_steps env config docs w (3 * length docs + 2) = [s]"
    then obtain s where eq: "after_steps env config docs w (3 * length docs + 2) = [s]" ..
    have "s \<in> set (after_steps env config docs w (3 * length docs + 2))"
      unfolding eq by simp
    from after_steps_agree [OF this] show ?thesis by simp
  next
    assume "\<exists>n<3 * length docs + 2. \<exists>final.
       after_steps env config docs w n = [final] \<and> ended final"
    then obtain n final where n: "n < 3 * length docs + 2"
      and f: "after_steps env config docs w n = [final]" and e: "ended final"
      by blast
    have "final \<in> set (after_steps env config docs w n)" unfolding f by simp
    from after_steps_agree [OF this] have a: "agrees env config docs w final" ..
    with e have "map_loop env config docs ([], w)
             = (case main final of Rethrown error \<Rightarrow> Some error | _ \<Rightarrow> None,
                partials_now final, loop_world final)"
      by (cases "main final") (simp_all add: agrees_def ended_def)
    with n f e show ?thesis
      by (intro exI [of _ n] exI [of _ final]) simp
  qed
qed

lemma world_at_Suc:
  assumes i: "i < length docs"
    and ok: "fst (map_loop env config (take i docs) ([], w)) = None"
  shows "world_at env config docs w (Suc i)
       = (if pageContent (docs ! i) = [] then world_at env config docs w i
          else snd (map_attempt env config (docs ! i) (world_at env config docs w i)))"
proof -
  obtain ps w1 where loop: "map_loop env config (take i docs) ([], w) = (None, ps, w1)"
    using ok by (cases "map_loop env config (take i docs) ([], w)") auto
  from map_loop_take_Suc [OF i loop] loop show ?thesis
    by (cases "map_attempt env config (docs ! i) w1")
       (auto simp: world_at_def map_iteration_def split: sum.splits)
qed

lemma partials_indexed_take:
  assumes "i \<le> length docs"
  shows "\<exists>idx. length idx = length (fst (snd (map_loop env config (take i docs) ([], w))))
     \<and> sorted_wrt (<) idx
     \<and> (\<forall>j<length idx. idx ! j < i
           \<and> pageContent (docs ! (idx ! j)) \<noteq> []
           \<and> fst (map_attempt env config (docs ! (idx ! j))
                    (world_at env config docs w (idx ! j)))
               = Inr (fst (snd (map_loop env config (take i docs) ([], w))) ! j))"
proof -
  from partials_indexed [of env config "take i docs" w]
  obtain idx where len: "length idx = length (fst (snd (map_loop env config (take i docs) ([], w))))"
    and sorted: "sorted_wrt (<) idx"
    and each: "\<forall>j<length idx. idx ! j < length (take i docs)
           \<and> pageContent (take i docs ! (idx ! j)) \<noteq> []
           \<and> fst (map_attempt env config (take i docs ! (idx ! j))
                    (world_at env config (take i docs) w (idx ! j)))
               = Inr (fst (snd (map_loop env config (take i docs) ([], w))) ! j)"
    by blast
  have "\<forall>j<length idx. idx ! j < i
           \<and> pageContent (docs ! (idx ! j)) \<noteq> []
           \<and> fst (map_attempt env config (docs ! (idx ! j))
                    (world_at env config docs w (idx ! j)))
               = Inr (fst (snd (map_loop env config (take i docs) ([], w))) ! j)"
  proof (intro allI impI)
    fix j assume j: "j < length idx"
    with each have lt: "idx ! j < length (take i docs)" by blast
    then have m: "idx ! j < i" by simp
    then have "take (idx ! j) (take i docs) = take (idx ! j) docs"
      by (simp add: min_def)
    then have "world_at env config (take i docs) w (idx ! j) = world_at env config docs w (idx ! j)"
      by (simp add: world_at_def)
    with each j m show "idx ! j < i
           \<and> pageContent (docs ! (idx ! j)) \<noteq> []
           \<and> fst (map_attempt env config (docs ! (idx ! j))
                    (world_at env config docs w (idx ! j)))
               = Inr (fst (snd (map_loop env config (take i docs) ([], w))) ! j)"
      by auto
  qed
  with len sorted show ?thesis by blast
qed

lemma agrees_order:
  assumes a: "agrees env config docs w s"
  shows "\<exists>idx. length idx = length (partials_now s)
     \<and> sorted_wrt (<) idx
     \<and> (\<forall>j<length idx. idx ! j < length docs
           \<and> pageContent (docs ! (idx ! j)) \<noteq> []
           \<and> fst (map_attempt env config (docs ! (idx ! j))
                    (world_at env config docs w (idx ! j)))
               = Inr (partials_now s ! j))"
proof -
  have "\<exists>i\<le>length docs. partials_now s = fst (snd (map_loop env config (take i docs) ([], w)))"
  proof (cases "main s")
    case LoopHead
    with a show ?thesis by (auto simp: agrees_def intro!: exI [of _ "loop_i s"])
  next
    case (Awaiting j)
    with a show ?thesis by (auto simp: agrees_def intro!: exI [of _ "loop_i s"])
  next
    case (Rethrown error)
    with a show ?thesis by (auto simp: agrees_def intro!: exI [of _ "length docs"])
  next
    case LoopDone
    with a show ?thesis by (auto simp: agrees_def intro!: exI [of _ "length docs"])
  qed
  then obtain i where i: "i \<le> length docs"
    and ps: "partials_now s = fst (snd (map_loop env config (take i docs) ([], w)))"
    by blast
  from partials_indexed_take [OF i, of env config w] i show ?thesis
    unfolding ps by (meson less_le_trans)
qed


lemma map_phase_handed:
  "map_loop env config docs ([], w) = (None, ps, w1) \<Longrightarrow> ps \<noteq> [] \<Longrightarrow>
     map_phase env config docs w = (Inr ps, w1)"
  by (simp add: map_phase_def)

text \<open>
  C10. Take any state that the loop and its queue can be in after \<open>k\<close> steps, whoever
  took them. The queue holds at most one job, waiting or running, whatever
  \<open>QUEUE_CONCURRENCY\<close> is. The state agrees with \<open>map_loop\<close>: the loop starts the round of a
  segment only when the job of the segment before has come to its end, in the world that
  job has left. The partial results are the outputs of segments with strictly increasing
  indices, each the value of the attempt made in the world of its round, and the world of
  a round is the one that the round before has left. There are at most three steps for a
  segment and one more, a state has at most one successor, none when the loop has ended,
  and exactly one before that when the queue lets a job start. For every
  \<open>QUEUE_CONCURRENCY\<close> from one on, the steps lead to one last state, whose partial results
  and world are those of \<open>map_loop\<close> under any such value. When the loop has ended after
  its last segment, the list it holds is the one that the map phase hands on.
\<close>

theorem partials_in_segment_order:
  assumes reach: "s \<in> set (after_steps env config docs w k)"
  shows "length (queue_waiting s) + length (queue_running s) \<le> 1
     \<and> agrees env config docs w s
     \<and> (\<exists>idx. length idx = length (partials_now s)
          \<and> sorted_wrt (<) idx
          \<and> (\<forall>j<length idx. idx ! j < length docs
                \<and> pageContent (docs ! (idx ! j)) \<noteq> []
                \<and> fst (map_attempt env config (docs ! (idx ! j))
                         (world_at env config docs w (idx ! j)))
                    = Inr (partials_now s ! j)))
     \<and> world_at env config docs w 0 = w
     \<and> (\<forall>i<length docs. fst (map_loop env config (take i docs) ([], w)) = None \<longrightarrow>
           world_at env config docs w (Suc i)
             = (if pageContent (docs ! i) = [] then world_at env config docs w i
                else snd (map_attempt env config (docs ! i) (world_at env config docs w i))))
     \<and> k + steps_left docs s \<le> 3 * length docs + 1
     \<and> length (successors env config docs s) \<le> 1
     \<and> (ended s \<longrightarrow> successors env config docs s = [])
     \<and> (1 \<le> QUEUE_CONCURRENCY config \<and> \<not> ended s \<longrightarrow>
           (\<exists>s'. successors env config docs s = [s']))
     \<and> (\<forall>c\<ge>1. \<exists>n \<le> 3 * length docs + 1. \<exists>final.
           after_steps env (config\<lparr>QUEUE_CONCURRENCY := c\<rparr>) docs w n = [final]
         \<and> ended final
         \<and> map_loop env config docs ([], w)
             = (case main final of Rethrown error \<Rightarrow> Some error | _ \<Rightarrow> None,
                partials_now final, loop_world final))
     \<and> (main s = LoopDone \<and> partials_now s \<noteq> [] \<longrightarrow>
           map_phase env config docs w = (Inr (partials_now s), loop_world s))"
proof -
  from after_steps_agree [OF reach]
  have a: "agrees env config docs w s"
    and bound: "k + steps_left docs s \<le> 3 * length docs + 1"
    by simp_all
  note queue = agrees_queue [OF a]
  note order = agrees_order [OF a]
  have start: "world_at env config docs w 0 = w" by (simp add: world_at_def)
  have thread: "\<forall>i<length docs. fst (map_loop env config (take i docs) ([], w)) = None \<longrightarrow>
           world_at env config docs w (Suc i)
             = (if pageContent (docs ! i) = [] then world_at env config docs w i
                else snd (map_attempt env config (docs ! i) (world_at env config docs w i)))"
    using world_at_Suc by blast
  note succ = agrees_successors [OF a]
  have any: "\<forall>c\<ge>1. \<exists>n \<le> 3 * length docs + 1. \<exists>final.
           after_steps env (config\<lparr>QUEUE_CONCURRENCY := c\<rparr>) docs w n = [final]
         \<and> ended final
         \<and> map_loop env config docs ([], w)
             = (case main final of Rethrown error \<Rightarrow> Some error | _ \<Rightarrow> None,
                partials_now final, loop_world final)"
  proof (intro allI impI)
    fix c :: int assume "1 \<le> c"
    then have "1 \<le> QUEUE_CONCURRENCY (config\<lparr>QUEUE_CONCURRENCY := c\<rparr>)" by simp
    from after_steps_ends [OF this, where env = env and docs = docs and w = w] show "\<exists>n \<le> 3 * length docs + 1. \<exists>final.
           after_steps env (config\<lparr>QUEUE_CONCURRENCY := c\<rparr>) docs w n = [final]
         \<and> ended final
         \<and> map_loop env config docs ([], w)
             = (case main final of Rethrown error \<Rightarrow> Some error | _ \<Rightarrow> None,
                partials_now final, loop_world final)"
      by (simp only: map_loop_concurrency)
  qed
  have handed: "main s = LoopDone \<and> partials_now s \<noteq> [] \<longrightarrow>
           map_phase env config docs w = (Inr (partials_now s), loop_world s)"
    using a by (auto simp: agrees_def intro: map_phase_handed)
  from queue a order start thread bound succ any handed show ?thesis by (intro conjI) blast+
qed

lemmas loop_eval = successors_def loop_steps_def queue_steps_def settle_def map_prepare_def
  catch_round_def loop_start_def

lemma demo_after_5:
  "after_steps demo_env demo_cfg
          [demo_doc ''one'' 0, demo_doc ''down'' 1, demo_doc ''three'' 2]
          (makeQueue demo_cfg demo_world) 5
   = [\<lparr>loop_i = 1, partials_now = [''one!''],
       loop_world = \<lparr>clock = 0,
          tokenTracker = \<lparr>usedTokens = 200, windowStart = 0, windowMs = 60000,
                           tokensPerMinute = 1000\<rparr>,
          modelState = 1\<rparr>,
       main = Awaiting 1, queue_waiting = [],
       queue_running = [(1, demo_doc ''down'' 1, ''down'', 200)]\<rparr>]"
  by (simp add: eval_nat_numeral loop_eval demo_eval)

lemma demo_after_10:
  "after_steps demo_env demo_cfg
          [demo_doc ''one'' 0, demo_doc ''down'' 1, demo_doc ''three'' 2]
          (makeQueue demo_cfg demo_world) 10
   = [\<lparr>loop_i = 3, partials_now = [''one!'', ''three!''],
       loop_world = \<lparr>clock = 47750,
          tokenTracker = \<lparr>usedTokens = 400, windowStart = 0, windowMs = 60000,
                           tokensPerMinute = 1000\<rparr>,
          modelState = 9\<rparr>,
       main = LoopDone, queue_waiting = [], queue_running = []\<rparr>]"
  by (simp add: eval_nat_numeral loop_eval demo_eval)

lemma demo_after_10_single:
  "after_steps demo_env (demo_cfg\<lparr>QUEUE_CONCURRENCY := 1\<rparr>)
          [demo_doc ''one'' 0, demo_doc ''down'' 1, demo_doc ''three'' 2]
          (makeQueue demo_cfg demo_world) 10
   = [\<lparr>loop_i = 3, partials_now = [''one!'', ''three!''],
       loop_world = \<lparr>clock = 47750,
          tokenTracker = \<lparr>usedTokens = 400, windowStart = 0, windowMs = 60000,
                           tokensPerMinute = 1000\<rparr>,
          modelState = 9\<rparr>,
       main = LoopDone, queue_waiting = [], queue_running = []\<rparr>]"
  by (simp add: eval_nat_numeral loop_eval demo_eval)

text \<open>
  The run of three segments with a concurrency of four. After five steps the job of the
  second segment runs alone while the loop awaits it; after ten the loop has ended, with
  the two summaries in the order of their segments, and so it has with a concurrency of
  one.
\<close>

theorem partials_in_segment_order_witness:
  "QUEUE_CONCURRENCY demo_cfg = 4
   \<and> after_steps demo_env demo_cfg
        [demo_doc ''one'' 0, demo_doc ''down'' 1, demo_doc ''three'' 2]
        (makeQueue demo_cfg demo_world) 5
      = [\<lparr>loop_i = 1, partials_now = [''one!''],
          loop_world = \<lparr>clock = 0,
             tokenTracker = \<lparr>usedTokens = 200, windowStart = 0, windowMs = 60000,
                              tokensPerMinute = 1000\<rparr>,
             modelState = 1\<rparr>,
          main = Awaiting 1, queue_waiting = [],
          queue_running = [(1, demo_doc ''down'' 1, ''down'', 200)]\<rparr>]
   \<and> after_steps demo_env demo_cfg
        [demo_doc ''one'' 0, demo_doc ''down'' 1, demo_doc ''three'' 2]
        (makeQueue demo_cfg demo_world) 10
      = [\<lparr>loop_i = 3, partials_now = [''one!'', ''three!''],
          loop_world = \<lparr>clock = 47750,
             tokenTracker = \<lparr>usedTokens = 400, windowStart = 0, windowMs = 60000,
                              tokensPerMinute = 1000\<rparr>,
             modelState = 9\<rparr>,
          main = LoopDone, queue_waiting = [], queue_running = []\<rparr>]
   \<and> after_steps demo_env (demo_cfg\<lparr>QUEUE_CONCURRENCY := 1\<rparr>)
        [demo_doc ''one'' 0, demo_doc ''down'' 1, demo_doc ''three'' 2]
        (makeQueue demo_cfg demo_world) 10
      = [\<lparr>loop_i = 3, partials_now = [''one!'', ''three!''],
          loop_world = \<lparr>clock = 47750,
             tokenTracker = \<lparr>usedTokens = 400, windowStart = 0, windowMs = 60000,
                              tokensPerMinute = 1000\<rparr>,
             modelState = 9\<rparr>,
          main = LoopDone, queue_waiting = [], queue_running = []\<rparr>]
   \<and> map_loop demo_env demo_cfg
        [demo_doc ''one'' 0, demo_doc ''down'' 1, demo_doc ''three'' 2]
        ([], makeQueue demo_cfg demo_world)
      = (None, [''one!'', ''three!''],
         \<lparr>clock = 47750,
          tokenTracker = \<lparr>usedTokens = 400, windowStart = 0, windowMs = 60000,
                           tokensPerMinute = 1000\<rparr>,
          modelState = 9\<rparr>)
   \<and> map_phase demo_env demo_cfg
        [demo_doc ''one'' 0, demo_doc ''down'' 1, demo_doc ''three'' 2]
        (makeQueue demo_cfg demo_world)
      = (Inr [''one!'', ''three!''],
         \<lparr>clock = 47750,
          tokenTracker = \<lparr>usedTokens = 400, windowStart = 0, windowMs = 60000,
                           tokensPerMinute = 1000\<rparr>,
          modelState = 9\<rparr>)"
proof -
  let ?docs = "[demo_doc ''one'' 0, demo_doc ''down'' 1, demo_doc ''three'' 2]"
  let ?w = "makeQueue demo_cfg demo_world"
  let ?final = "\<lparr>loop_i = 3, partials_now = [''one!'', ''three!''],
          loop_world = \<lparr>clock = 47750,
             tokenTracker = \<lparr>usedTokens = 400, windowStart = 0, windowMs = 60000,
                              tokensPerMinute = 1000\<rparr>,
             modelState = 9\<rparr>,
          main = LoopDone, queue_waiting = [], queue_running = []\<rparr> :: nat loop_state"
  have c: "QUEUE_CONCURRENCY demo_cfg = 4" by (simp add: demo_cfg_def)
  have reach: "?final \<in> set (after_steps demo_env demo_cfg ?docs ?w 10)"
    by (simp only: demo_after_10) simp
  note T = partials_in_segment_order [OF reach]
  note same = T [THEN conjunct2, THEN conjunct1]
  then have loop: "map_loop demo_env demo_cfg ?docs ([], ?w)
      = (None, [''one!'', ''three!''],
         \<lparr>clock = 47750,
          tokenTracker = \<lparr>usedTokens = 400, windowStart = 0, windowMs = 60000,
                           tokensPerMinute = 1000\<rparr>,
          modelState = 9\<rparr>)"
    by (simp add: agrees_def)
  have at_end: "main ?final = LoopDone \<and> partials_now ?final \<noteq> []" by simp
  note handed = T [THEN conjunct2, THEN conjunct2, THEN conjunct2, THEN conjunct2,
      THEN conjunct2, THEN conjunct2, THEN conjunct2, THEN conjunct2, THEN conjunct2,
      THEN conjunct2]
  from handed [THEN mp, OF at_end] have phase: "map_phase demo_env demo_cfg ?docs ?w
      = (Inr [''one!'', ''three!''],
         \<lparr>clock = 47750,
          tokenTracker = \<lparr>usedTokens = 400, windowStart = 0, windowMs = 60000,
                           tokensPerMinute = 1000\<rparr>,
          modelState = 9\<rparr>)"
    by simp
  from c demo_after_5 demo_after_10 demo_after_10_single loop phase
  show ?thesis by (intro conjI)
qed

end
